theory Spec2Isabelle
  imports Main "HOL-Library.Finite_Map"
begin

section \<open>C strings and the C library functions used by tocaia.c\<close>

text \<open>
  A C string is modelled by the list of the bytes that precede its terminating NUL, so a
  well-formed string holds no NUL byte (\<open>cstring\<close>). A pointer into a string is an offset;
  a function that returns a pointer or NULL returns \<open>nat option\<close>.
\<close>

abbreviation NUL :: char where "NUL \<equiv> CHR 0x00"
abbreviation TAB :: char where "TAB \<equiv> CHR 0x09"
abbreviation LF :: char where "LF \<equiv> CHR 0x0A"
abbreviation CR :: char where "CR \<equiv> CHR 0x0D"

definition cstring :: "string \<Rightarrow> bool" where
  "cstring s = (NUL \<notin> set s)"

text \<open>\<open>s[0]\<close>: the first byte of a C string, the terminator when the string is empty.\<close>

definition char_at0 :: "string \<Rightarrow> char" where
  "char_at0 s = (case s of [] \<Rightarrow> NUL | c # _ \<Rightarrow> c)"

text \<open>\<open>isspace\<close> and \<open>isdigit\<close> in the C locale (the program never calls setlocale).\<close>

definition isspace :: "char \<Rightarrow> bool" where
  "isspace c = (c \<in> set [CHR 0x20, TAB, LF, CHR 0x0B, CHR 0x0C, CR])"

definition isdigit :: "char \<Rightarrow> bool" where
  "isdigit c = (c \<in> set ''0123456789'')"

text \<open>\<open>strchr(s, c)\<close> for a byte \<open>c\<close> other than NUL: the offset of the first \<open>c\<close> in \<open>s\<close>.\<close>

fun strchr :: "string \<Rightarrow> char \<Rightarrow> nat option" where
  "strchr [] c = None"
| "strchr (x # xs) c = (if x = c then Some 0 else map_option Suc (strchr xs c))"

text \<open>\<open>strrchr(s, c)\<close>: the offset of the last \<open>c\<close> in \<open>s\<close>.\<close>

fun strrchr :: "string \<Rightarrow> char \<Rightarrow> nat option" where
  "strrchr [] c = None"
| "strrchr (x # xs) c =
     (case strrchr xs c of
        Some i \<Rightarrow> Some (Suc i)
      | None \<Rightarrow> (if x = c then Some 0 else None))"

text \<open>
  \<open>strncpy(dst, src, n); dst[n] = '\0';\<close> as the source always writes the pair: the
  destination then holds the first \<open>n\<close> bytes of \<open>src\<close>, or all of it when it is shorter.
\<close>

definition strncpy :: "nat \<Rightarrow> string \<Rightarrow> string" where
  "strncpy n src = take n src"

text \<open>
  \<open>atoi(s)\<close> is \<open>(int) strtol(s, NULL, 10)\<close> in the C libraries of the platforms that the
  Makefile names (glibc and the BSD libc), with a 64-bit \<open>long\<close> and a 32-bit \<open>int\<close>.
  \<open>strtol\<close> skips leading white space, reads an optional sign, then the longest run of
  decimal digits; no digits give 0. \<open>strtol_value\<close> is the number that this text denotes;
  \<open>strtol\<close> returns it when a \<open>long\<close> holds it and \<open>LONG_MAX\<close> or \<open>LONG_MIN\<close> otherwise;
  the conversion to \<open>int\<close> keeps the low 32 bits, read in two's complement. So \<open>atoi\<close> wraps on
  a number that an \<open>int\<close> does not hold; \<open>atoi_in_range\<close> says that the number fits an \<open>int\<close>,
  and then \<open>atoi\<close> returns it.
\<close>

fun digits_value :: "int \<Rightarrow> string \<Rightarrow> int" where
  "digits_value acc [] = acc"
| "digits_value acc (c # cs) =
     (if isdigit c then digits_value (acc * 10 + (of_char c - 48)) cs else acc)"

definition strtol_value :: "string \<Rightarrow> int" where
  "strtol_value s =
     (case dropWhile isspace s of
        [] \<Rightarrow> 0
      | c # cs \<Rightarrow>
          if c = CHR ''-'' then - digits_value 0 cs
          else if c = CHR ''+'' then digits_value 0 cs
          else digits_value 0 (c # cs))"

definition LONG_MAX :: int where "LONG_MAX = 2 ^ 63 - 1"
definition LONG_MIN :: int where "LONG_MIN = - (2 ^ 63)"

definition strtol :: "string \<Rightarrow> int" where
  "strtol s =
     (if strtol_value s > LONG_MAX then LONG_MAX
      else if strtol_value s < LONG_MIN then LONG_MIN
      else strtol_value s)"

definition int_of_long :: "int \<Rightarrow> int" where
  "int_of_long v = (v + 2 ^ 31) mod 2 ^ 32 - 2 ^ 31"

definition atoi :: "string \<Rightarrow> int" where
  "atoi s = int_of_long (strtol s)"

definition atoi_in_range :: "string \<Rightarrow> bool" where
  "atoi_in_range s = (- (2 ^ 31) \<le> strtol_value s \<and> strtol_value s < 2 ^ 31)"

section \<open>Data model\<close>

text \<open>
  Buffer sizes of the source: \<open>MAX_HOST_LENGTH = 256\<close>, \<open>MAX_SELECTOR_LENGTH = 1024\<close>,
  \<open>MAX_DISPLAY_LENGTH = 1024\<close>, \<open>MAX_URL_INPUT_LENGTH = 256 + 1024 + 10\<close>; each buffer
  holds one byte less than its size, and a terminator.
\<close>

definition MAX_HOST_LENGTH :: nat where "MAX_HOST_LENGTH = 256"
definition MAX_SELECTOR_LENGTH :: nat where "MAX_SELECTOR_LENGTH = 1024"
definition MAX_DISPLAY_LENGTH :: nat where "MAX_DISPLAY_LENGTH = 1024"
definition MAX_URL_INPUT_LENGTH :: nat where
  "MAX_URL_INPUT_LENGTH = MAX_HOST_LENGTH + MAX_SELECTOR_LENGTH + 10"

text \<open>Key codes: the third byte of the escape sequence of an arrow or page key.\<close>

abbreviation (input) KEY_UP :: char where "KEY_UP \<equiv> CHR ''A''"
abbreviation (input) KEY_DOWN :: char where "KEY_DOWN \<equiv> CHR ''B''"
abbreviation (input) KEY_PGUP :: char where "KEY_PGUP \<equiv> CHR ''5''"
abbreviation (input) KEY_PGDN :: char where "KEY_PGDN \<equiv> CHR ''6''"

text \<open>\<open>struct GopherItem\<close>.\<close>

record GopherItem =
  item_type :: char
  display_string :: string
  item_selector :: string
  item_host :: string
  item_port :: int
  is_selectable :: bool
  menu_index :: int

text \<open>
  \<open>struct NavigationState\<close>, a node of the doubly linked history. Nodes live in a store
  of allocated cells, addressed by numbers; \<open>NULL\<close> is \<open>None\<close>. \<open>page_content\<close> is the
  cached body, owned by the node.
\<close>

type_synonym addr = nat

record NavigationState =
  nav_host :: string
  nav_port :: int
  nav_selector :: string
  page_content :: "string option"
  nav_prev :: "addr option"
  nav_next :: "addr option"

type_synonym heap = "(addr, NavigationState) fmap"

text \<open>
  \<open>struct AppState\<close>. \<open>gopher_items\<close> is the item array, \<open>total_items\<close> its length;
  \<open>ws_row\<close> is \<open>terminal_size.ws_row\<close> (an unsigned short); \<open>heap\<close> is the memory that
  the node pointers refer to.
\<close>

record AppState =
  current_nav :: "addr option"
  gopher_items :: "GopherItem list"
  selectable_items :: int
  selected_index :: int
  scroll_offset :: int
  text_scroll_line :: int
  total_content_lines :: int
  is_running :: bool
  ws_row :: nat
  heap :: heap

definition total_items :: "AppState \<Rightarrow> int" where
  "total_items s = int (length (gopher_items s))"

section \<open>Content classifier\<close>

text \<open>\<open>is_gopher_menu\<close>; the argument is the node pointer, already looked up in the store.\<close>

definition is_gopher_menu :: "NavigationState option \<Rightarrow> bool" where
  "is_gopher_menu nav =
     (case nav of
        None \<Rightarrow> False
      | Some n \<Rightarrow>
          (case page_content n of
             None \<Rightarrow> False
           | Some content \<Rightarrow>
               (let selector_type = char_at0 (nav_selector n) in
                if selector_type = CHR ''0'' \<or> selector_type = CHR ''4'' \<or>
                   selector_type = CHR ''5'' \<or> selector_type = CHR ''6'' \<or>
                   selector_type = CHR ''9'' \<or> selector_type = CHR ''g'' \<or>
                   selector_type = CHR ''I'' \<or> selector_type = CHR ''h''
                then False
                else if selector_type = NUL \<or> selector_type = CHR ''1'' then True
                else
                  (let first_line =
                         (case strchr content LF of
                            Some len \<Rightarrow>
                              strncpy (if len \<ge> MAX_DISPLAY_LENGTH
                                       then MAX_DISPLAY_LENGTH - 1 else len) content
                          | None \<Rightarrow> strncpy (MAX_DISPLAY_LENGTH - 1) content)
                   in strchr first_line TAB \<noteq> None))))"

section \<open>Text line count\<close>

text \<open>The scanning loop of \<open>calculate_text_lines\<close>: one count per newline byte.\<close>

fun count_newlines :: "string \<Rightarrow> int \<Rightarrow> int" where
  "count_newlines [] count = count"
| "count_newlines (c # cs) count = count_newlines cs (if c = LF then count + 1 else count)"

definition calculate_text_lines :: "AppState \<Rightarrow> string \<Rightarrow> AppState" where
  "calculate_text_lines s content =
     (let count = count_newlines content 0
      in s\<lparr>total_content_lines :=
             (if content \<noteq> [] \<and> last content \<noteq> LF then count + 1 else count)\<rparr>)"

section \<open>Menu line parser\<close>

text \<open>
  \<open>trim_whitespace\<close> works on the buffer in place. \<open>str\<close> is advanced over the leading
  white space, \<open>end\<close> walks back from the last byte while it is white space and has not
  reached \<open>str\<close>, and the terminator is written after \<open>end\<close>: the buffer is cut there, and
  nothing is moved. A buffer of white space only is left as it is.
\<close>

fun trim_end :: "string \<Rightarrow> nat \<Rightarrow> nat \<Rightarrow> nat" where
  "trim_end buf str e = (if e > str \<and> isspace (buf ! e) then trim_end buf str (e - 1) else e)"

declare trim_end.simps [simp del]

definition trim_whitespace :: "string \<Rightarrow> string" where
  "trim_whitespace buf =
     (let str = length (takeWhile isspace buf)
      in if str = length buf then buf
         else take (trim_end buf str (length buf - 1) + 1) buf)"

text \<open>A string with its leading and its trailing white space removed.\<close>

definition trim_both :: "string \<Rightarrow> string" where
  "trim_both s = rev (dropWhile isspace (rev (dropWhile isspace s)))"

text \<open>The C string that starts at offset \<open>p\<close> of a buffer that has NUL bytes written into it.\<close>

definition c_str_at :: "string \<Rightarrow> nat \<Rightarrow> string" where
  "c_str_at buf p = takeWhile (\<lambda>c. c \<noteq> NUL) (drop p buf)"

text \<open>
  The tokenizing loop of \<open>parse_gopher_line\<close>: at most \<open>k\<close> more tabs are looked for from
  the offset \<open>token\<close>; each tab found is overwritten by NUL in the line buffer and the
  offset after it is the next field. The result is the buffer and the offsets found.
\<close>

fun tokenize :: "nat \<Rightarrow> nat \<Rightarrow> string \<Rightarrow> string \<times> nat list" where
  "tokenize 0 token buf = (buf, [])"
| "tokenize (Suc k) token buf =
     (case strchr (c_str_at buf token) TAB of
        None \<Rightarrow> (buf, [])
      | Some i \<Rightarrow>
          (case tokenize k (token + i + 1) (buf[token + i := NUL]) of
             (buf', found) \<Rightarrow> (buf', (token + i + 1) # found)))"

definition strip_cr :: "string \<Rightarrow> string" where
  "strip_cr line = (if line \<noteq> [] \<and> last line = CR then butlast line else line)"

text \<open>The item after \<open>memset(item, 0, sizeof(GopherItem))\<close>.\<close>

definition zero_item :: GopherItem where
  "zero_item = \<lparr>item_type = NUL, display_string = [], item_selector = [], item_host = [],
                 item_port = 0, is_selectable = False, menu_index = 0\<rparr>"

text \<open>
  \<open>parse_gopher_line\<close>: \<open>None\<close> is the return value FALSE (the line is skipped), \<open>Some\<close>
  the item filled in. \<open>field\<close> lists the offsets of the non-NULL entries of the source's
  array \<open>fields\<close>; entry 0 is \<open>line_content_start\<close>.
\<close>

definition parse_gopher_line :: "string \<Rightarrow> string \<Rightarrow> int \<Rightarrow> GopherItem option" where
  "parse_gopher_line line0 current_host current_port =
     (let line = strip_cr line0 in
      if char_at0 line = NUL \<or> line = ''.'' \<or> length line < 2 then None
      else
        (let ty = line ! 0;
             line_content_start = 1;
             (buf, found) = tokenize 3 line_content_start line;
             field = line_content_start # found
         in if ty = CHR ''i'' \<or> length field < 3 then
              Some (zero_item\<lparr>item_type := ty, is_selectable := False,
                      display_string :=
                        trim_whitespace
                          (strncpy (MAX_DISPLAY_LENGTH - 1) (c_str_at buf line_content_start))\<rparr>)
            else
              (let display = trim_whitespace
                               (strncpy (MAX_DISPLAY_LENGTH - 1) (c_str_at buf (field ! 0)));
                   selector = strncpy (MAX_SELECTOR_LENGTH - 1) (c_str_at buf (field ! 1));
                   host = strncpy (MAX_HOST_LENGTH - 1)
                            (if char_at0 (c_str_at buf (field ! 2)) \<noteq> NUL
                             then c_str_at buf (field ! 2) else current_host);
                   port = (if length field > 3 then atoi (c_str_at buf (field ! 3))
                           else current_port)
               in Some (zero_item\<lparr>item_type := ty, display_string := display,
                          item_selector := selector, item_host := host, item_port := port,
                          is_selectable :=
                            (strchr ''0127h'' ty \<noteq> None \<and> host \<noteq> ''null.host'' \<and>
                             host \<noteq> ''error.host'')\<rparr>))))"

text \<open>
  The tokens that the calls \<open>strtok(data_copy, "\n")\<close>, \<open>strtok(NULL, "\n")\<close>, ... return:
  the maximal non-empty runs of bytes other than newline. \<open>cur\<close> is the run being read.
\<close>

fun strtok_lines :: "string \<Rightarrow> string \<Rightarrow> string list" where
  "strtok_lines cur [] = (if cur = [] then [] else [cur])"
| "strtok_lines cur (c # cs) =
     (if c = LF then (if cur = [] then strtok_lines [] cs else cur # strtok_lines [] cs)
      else strtok_lines (cur @ [c]) cs)"

text \<open>
  The loop of \<open>process_gopher_response\<close> over the lines, carrying the item array and
  \<open>selectable_items\<close>: a selectable item gets the next ordinal as its \<open>menu_index\<close>.
\<close>

fun collect_items :: "string \<Rightarrow> int \<Rightarrow> string list \<Rightarrow> GopherItem list \<Rightarrow> int
    \<Rightarrow> GopherItem list \<times> int" where
  "collect_items host port [] items selectable = (items, selectable)"
| "collect_items host port (line # lines) items selectable =
     (case parse_gopher_line line host port of
        None \<Rightarrow> collect_items host port lines items selectable
      | Some current_item \<Rightarrow>
          if is_selectable current_item
          then collect_items host port lines
                 (items @ [current_item\<lparr>menu_index := selectable + 1\<rparr>]) (selectable + 1)
          else collect_items host port lines (items @ [current_item]) selectable)"

text \<open>
  \<open>process_gopher_response\<close>. The loop body reads \<open>state->current_nav->host\<close>: with a line
  to parse and no current node the program has no defined behaviour, which is \<open>None\<close>.
\<close>

definition process_gopher_response :: "AppState \<Rightarrow> string \<Rightarrow> AppState option" where
  "process_gopher_response s data =
     (let lines = strtok_lines [] data;
          s0 = s\<lparr>gopher_items := [], selectable_items := 0, selected_index := 1\<rparr>
      in if lines = [] then Some s0
         else
           (case current_nav s of
              None \<Rightarrow> None
            | Some c \<Rightarrow>
                (case fmlookup (heap s) c of
                   None \<Rightarrow> None
                 | Some nav \<Rightarrow>
                     (case collect_items (nav_host nav) (nav_port nav) lines [] 0 of
                        (items, selectable) \<Rightarrow>
                          Some (s0\<lparr>gopher_items := items, selectable_items := selectable\<rparr>)))))"

section \<open>Menu navigation\<close>

text \<open>
  The search loop of \<open>handle_menu_navigation\<close> for the array index of the item whose
  ordinal is \<open>selected_index\<close>; -1 when there is none.
\<close>

fun find_selected :: "GopherItem list \<Rightarrow> int \<Rightarrow> int \<Rightarrow> int \<Rightarrow> int" where
  "find_selected [] i current_selectable selected = - 1"
| "find_selected (item # items) i current_selectable selected =
     (if is_selectable item
      then (if current_selectable + 1 = selected then i
            else find_selected items (i + 1) (current_selectable + 1) selected)
      else find_selected items (i + 1) current_selectable selected)"

definition menu_viewable_rows :: "AppState \<Rightarrow> int" where
  "menu_viewable_rows s = (if ws_row s > 4 then int (ws_row s) - 4 else 0)"

definition handle_menu_navigation :: "AppState \<Rightarrow> char \<Rightarrow> AppState" where
  "handle_menu_navigation s input =
     (let viewable_rows = menu_viewable_rows s in
      if selectable_items s = 0 then s
      else
        (let s1 =
               (if input = KEY_UP then
                  s\<lparr>selected_index :=
                      (if selected_index s > 1 then selected_index s - 1
                       else selectable_items s)\<rparr>
                else if input = KEY_DOWN then
                  s\<lparr>selected_index :=
                      (if selected_index s < selectable_items s then selected_index s + 1
                       else 1)\<rparr>
                else if input = KEY_PGUP then
                  (let n = selected_index s - viewable_rows
                   in s\<lparr>selected_index := (if n < 1 then 1 else n)\<rparr>)
                else if input = KEY_PGDN then
                  (let n = selected_index s + viewable_rows
                   in s\<lparr>selected_index :=
                          (if n > selectable_items s then selectable_items s else n)\<rparr>)
                else s);
             selected_array_idx = find_selected (gopher_items s1) 0 0 (selected_index s1)
         in if selected_array_idx \<noteq> - 1 then
              (if selected_array_idx < scroll_offset s1 then
                 s1\<lparr>scroll_offset := selected_array_idx\<rparr>
               else if selected_array_idx \<ge> scroll_offset s1 + viewable_rows then
                 s1\<lparr>scroll_offset := selected_array_idx - viewable_rows + 1\<rparr>
               else s1)
            else s1))"


text \<open>
  The state of a displayed menu: \<open>selectable_items\<close> counts the selectable items, whose
  ordinals are 1, 2, ... in array order, as \<open>process_gopher_response\<close> leaves them.
\<close>

definition menu_wf :: "AppState \<Rightarrow> bool" where
  "menu_wf s =
     (selectable_items s = int (length (filter is_selectable (gopher_items s))) \<and>
      map menu_index (filter is_selectable (gopher_items s)) = [1..selectable_items s])"


definition example_info_menu :: AppState where
  "example_info_menu =
     \<lparr>current_nav = None,
      gopher_items =
        [\<lparr>item_type = CHR ''i'', display_string = ''Welcome'', item_selector = [],
          item_host = [], item_port = 0, is_selectable = False, menu_index = 0\<rparr>,
         \<lparr>item_type = CHR ''1'', display_string = ''Dead'', item_selector = ''/'',
          item_host = ''null.host'', item_port = 70, is_selectable = False, menu_index = 0\<rparr>],
      selectable_items = 0, selected_index = 1, scroll_offset = 0, text_scroll_line = 0,
      total_content_lines = 0, is_running = True, ws_row = 24, heap = fmempty\<rparr>"

section \<open>Navigation history\<close>

text \<open>\<open>create_nav_state\<close>: the node that is written into the cell \<open>malloc\<close> returned.\<close>

definition create_nav_state :: "string \<Rightarrow> int \<Rightarrow> string \<Rightarrow> NavigationState" where
  "create_nav_state host port selector =
     \<lparr>nav_host = strncpy (MAX_HOST_LENGTH - 1) host, nav_port = port,
      nav_selector = strncpy (MAX_SELECTOR_LENGTH - 1) selector,
      page_content = None, nav_prev = None, nav_next = None\<rparr>"

text \<open>
  The loop of \<open>free_forward_history\<close>: from \<open>forward_node\<close> on, each node is read, its
  successor remembered, and its body and its cell released (\<open>free(temp->page_content)\<close>,
  then \<open>free(temp)\<close>: the body is a field of the node in the store, and goes with the cell).
  A pointer to a cell that is not allocated cannot be followed in C; the loop of the model
  stops there.
\<close>

function free_nodes :: "heap \<Rightarrow> addr option \<Rightarrow> heap" where
  "free_nodes h None = h"
| "free_nodes h (Some a) =
     (case fmlookup h a of
        None \<Rightarrow> h
      | Some temp \<Rightarrow> free_nodes (fmdrop a h) (nav_next temp))"
  by pat_completeness auto
termination
proof (relation "measure (\<lambda>(h, p). fcard (fmdom h))")
  show "wf (measure (\<lambda>(h, p). fcard (fmdom h)))" by simp
next
  fix h :: heap and a temp
  assume "fmlookup h a = Some temp"
  then have "a |\<in>| fmdom h" by (rule fmdomI)
  then have "fcard (fmdom h |-| {|a|}) < fcard (fmdom h)" by (rule fcard_fminus1_less)
  then show "((fmdrop a h, nav_next temp), (h, Some a)) \<in> measure (\<lambda>(h, p). fcard (fmdom h))"
    by simp
qed

text \<open>\<open>free_forward_history\<close>: the nodes after \<open>current_state\<close> are released and its \<open>next\<close> is cleared.\<close>

definition free_forward_history :: "heap \<Rightarrow> addr option \<Rightarrow> heap" where
  "free_forward_history h current_state =
     (case current_state of
        None \<Rightarrow> h
      | Some c \<Rightarrow>
          (case fmlookup h c of
             None \<Rightarrow> h
           | Some n \<Rightarrow>
               (let h' = free_nodes h (nav_next n)
                in case fmlookup h' c of
                     None \<Rightarrow> h'
                   | Some n' \<Rightarrow> fmupd c (n'\<lparr>nav_next := None\<rparr>) h')))"

text \<open>
  \<open>navigate_to\<close>. The first argument is the address that \<open>malloc\<close> returned to
  \<open>create_nav_state\<close>, a cell that was not allocated before the call.
\<close>

definition navigate_to :: "addr \<Rightarrow> AppState \<Rightarrow> string \<Rightarrow> int \<Rightarrow> string \<Rightarrow> AppState" where
  "navigate_to new_state s host port selector =
     (let h0 = fmupd new_state (create_nav_state host port selector) (heap s);
          h1 = (case current_nav s of
                  None \<Rightarrow> h0
                | Some c \<Rightarrow>
                    (let hf = free_forward_history h0 (Some c);
                         hc = (case fmlookup hf c of
                                 None \<Rightarrow> hf
                               | Some n \<Rightarrow> fmupd c (n\<lparr>nav_next := Some new_state\<rparr>) hf)
                     in case fmlookup hc new_state of
                          None \<Rightarrow> hc
                        | Some n \<Rightarrow> fmupd new_state (n\<lparr>nav_prev := Some c\<rparr>) hc))
      in s\<lparr>heap := h1, current_nav := Some new_state,
            selected_index := 1, scroll_offset := 0, text_scroll_line := 0\<rparr>)"

text \<open>\<open>navigate_back\<close> and \<open>navigate_forward\<close>.\<close>

definition navigate_back :: "AppState \<Rightarrow> AppState" where
  "navigate_back s =
     (case current_nav s of
        None \<Rightarrow> s
      | Some c \<Rightarrow>
          (case fmlookup (heap s) c of
             None \<Rightarrow> s
           | Some n \<Rightarrow>
               (case nav_prev n of
                  None \<Rightarrow> s
                | Some p \<Rightarrow>
                    s\<lparr>current_nav := Some p,
                       selected_index := 1, scroll_offset := 0, text_scroll_line := 0\<rparr>)))"

definition navigate_forward :: "AppState \<Rightarrow> AppState" where
  "navigate_forward s =
     (case current_nav s of
        None \<Rightarrow> s
      | Some c \<Rightarrow>
          (case fmlookup (heap s) c of
             None \<Rightarrow> s
           | Some n \<Rightarrow>
               (case nav_next n of
                  None \<Rightarrow> s
                | Some p \<Rightarrow>
                    s\<lparr>current_nav := Some p,
                       selected_index := 1, scroll_offset := 0, text_scroll_line := 0\<rparr>)))"

text \<open>
  \<open>fetch_current_content\<close>: the request for the current node is sent and the response is
  stored as the body of that node. \<open>response\<close> is the buffer that \<open>receive_gopher_data\<close>
  returned; when the connection or the transfer fails the program ends in \<open>die\<close>, so the
  function returns only with a response. The main loop calls it when the current node has
  no body yet, and checks before that there is a current node.
\<close>

definition fetch_current_content :: "AppState \<Rightarrow> string \<Rightarrow> AppState" where
  "fetch_current_content s response =
     (case current_nav s of
        None \<Rightarrow> s
      | Some c \<Rightarrow>
          (case fmlookup (heap s) c of
             None \<Rightarrow> s
           | Some n \<Rightarrow> s\<lparr>heap := fmupd c (n\<lparr>page_content := Some response\<rparr>) (heap s)\<rparr>))"

text \<open>
  The state \<open>main\<close> sets up before its first \<open>navigate_to\<close>: all zero, running, the
  terminal height read from the terminal, no node allocated.
\<close>

definition initial_state :: "nat \<Rightarrow> AppState" where
  "initial_state rows =
     \<lparr>current_nav = None, gopher_items = [], selectable_items = 0, selected_index = 0,
      scroll_offset = 0, text_scroll_line = 0, total_content_lines = 0, is_running = True,
      ws_row = rows, heap = fmempty\<rparr>"

text \<open>
  Runs of history operations. \<open>run s ops s'\<close>: from \<open>s\<close> the operations \<open>ops\<close> can lead to
  \<open>s'\<close>; the allocator may hand any cell that is not allocated to a \<open>NavigateTo\<close>.
\<close>

datatype nav_op = NavigateTo string int string | Back | Forward

fun is_navigate_to :: "nav_op \<Rightarrow> bool" where
  "is_navigate_to (NavigateTo host port selector) = True"
| "is_navigate_to Back = False"
| "is_navigate_to Forward = False"

inductive run :: "AppState \<Rightarrow> nav_op list \<Rightarrow> AppState \<Rightarrow> bool" where
  run_done: "run s [] s"
| run_navigate_to:
    "fmlookup (heap s) new_state = None \<Longrightarrow> run (navigate_to new_state s host port selector) ops s'
     \<Longrightarrow> run s (NavigateTo host port selector # ops) s'"
| run_back: "run (navigate_back s) ops s' \<Longrightarrow> run s (Back # ops) s'"
| run_forward: "run (navigate_forward s) ops s' \<Longrightarrow> run s (Forward # ops) s'"

text \<open>
  \<open>dlseg h pv xs nx\<close>: the cells \<open>xs\<close> are a doubly linked segment of the store: each node's
  \<open>next\<close> is the following cell and each node's \<open>prev\<close> the preceding one; the first node's
  \<open>prev\<close> is \<open>pv\<close> and the last node's \<open>next\<close> is \<open>nx\<close>.
\<close>

fun dlseg :: "heap \<Rightarrow> addr option \<Rightarrow> addr list \<Rightarrow> addr option \<Rightarrow> bool" where
  "dlseg h pv [] nx = True"
| "dlseg h pv (a # as) nx =
     (case fmlookup h a of
        None \<Rightarrow> False
      | Some n \<Rightarrow>
          nav_prev n = pv \<and> nav_next n = (case as of [] \<Rightarrow> nx | b # _ \<Rightarrow> Some b) \<and>
          dlseg h (Some a) as nx)"

text \<open>The allocated nodes with no predecessor.\<close>

definition head_nodes :: "heap \<Rightarrow> addr fset" where
  "head_nodes h =
     ffilter (\<lambda>a. case fmlookup h a of None \<Rightarrow> False | Some n \<Rightarrow> nav_prev n = None) (fmdom h)"

text \<open>The \<open>next\<close> and \<open>prev\<close> links of the store as relations, and the cells linked to a cell.\<close>

definition next_rel :: "heap \<Rightarrow> (addr \<times> addr) set" where
  "next_rel h = {(a, b). \<exists>n. fmlookup h a = Some n \<and> nav_next n = Some b}"

definition prev_rel :: "heap \<Rightarrow> (addr \<times> addr) set" where
  "prev_rel h = {(a, b). \<exists>n. fmlookup h a = Some n \<and> nav_prev n = Some b}"

inductive_set linked :: "heap \<Rightarrow> addr \<Rightarrow> addr set" for h :: heap and x :: addr where
  linked_self: "x \<in> linked h x"
| linked_next: "y \<in> linked h x \<Longrightarrow> fmlookup h y = Some n \<Longrightarrow> nav_next n = Some z \<Longrightarrow> z \<in> linked h x"
| linked_prev: "y \<in> linked h x \<Longrightarrow> fmlookup h y = Some n \<Longrightarrow> nav_prev n = Some z \<Longrightarrow> z \<in> linked h x"

text \<open>
  The history invariant: with no current node nothing is allocated; otherwise the store is
  one doubly linked chain without repetition, from a head with no predecessor to a tail
  with no successor, and the current node is on it.
\<close>

definition hist_inv :: "AppState \<Rightarrow> bool" where
  "hist_inv s =
     (case current_nav s of
        None \<Rightarrow> heap s = fmempty
      | Some c \<Rightarrow>
          (\<exists>xs. dlseg (heap s) None xs None \<and> distinct xs \<and> c \<in> set xs \<and>
                fmdom' (heap s) = set xs))"

text \<open>The position of a cell in a list of cells.\<close>

definition rank :: "addr list \<Rightarrow> addr \<Rightarrow> nat" where
  "rank xs a = length (takeWhile (\<lambda>x. x \<noteq> a) xs)"

section \<open>Address parser\<close>

text \<open>
  The checks of \<open>parse_gopher_address\<close> after the port has been read: \<open>host_port_str\<close> now
  ends before the colon, \<open>port_out\<close> is the port read or the default.
\<close>

definition check_host_port :: "string \<Rightarrow> int \<Rightarrow> string \<Rightarrow> (string \<times> int \<times> string) option" where
  "check_host_port host_port_str port_out selector_out =
     (if host_port_str = [] then None
      else if strchr host_port_str (CHR '' '') \<noteq> None \<or> strchr host_port_str TAB \<noteq> None \<or>
              strchr host_port_str LF \<noteq> None then None
      else if strchr host_port_str (CHR ''.'') = None \<and> \<not> isdigit (char_at0 host_port_str)
      then None
      else if port_out \<le> 0 \<or> port_out > 65535 then None
      else Some (strncpy (MAX_HOST_LENGTH - 1) host_port_str, port_out, selector_out))"

text \<open>
  \<open>parse_gopher_address\<close>: \<open>None\<close> is the return value FALSE, \<open>Some (host, port, selector)\<close>
  the three outputs on TRUE. The address is copied into \<open>temp_address\<close>, a buffer of
  \<open>MAX_URL_INPUT_LENGTH\<close> bytes; the buffer is cut at the first slash and then at the last
  colon before it (each is overwritten by NUL in the source).
\<close>

definition parse_gopher_address :: "string \<Rightarrow> (string \<times> int \<times> string) option" where
  "parse_gopher_address address =
     (if address = [] then None
      else
        (let temp_address = strncpy (MAX_URL_INPUT_LENGTH - 1) address;
             parse_ptr = (if take 9 temp_address = ''gopher://''
                          then drop 9 temp_address else temp_address);
             first_slash = strchr parse_ptr (CHR ''/'');
             selector_out = (case first_slash of
                               None \<Rightarrow> []
                             | Some i \<Rightarrow> strncpy (MAX_SELECTOR_LENGTH - 1) (drop (Suc i) parse_ptr));
             host_port_str = (case first_slash of None \<Rightarrow> parse_ptr | Some i \<Rightarrow> take i parse_ptr)
         in case strrchr host_port_str (CHR '':'') of
              Some j \<Rightarrow>
                if drop (Suc j) host_port_str \<noteq> []
                then check_host_port (take j host_port_str) (atoi (drop (Suc j) host_port_str))
                       selector_out
                else None
            | None \<Rightarrow> check_host_port host_port_str 70 selector_out))"

text \<open>
  For the statements about addresses: the decimal numeral of a port, and the address
  without its scheme prefix.
\<close>

definition digit_char :: "nat \<Rightarrow> char" where
  "digit_char d = ''0123456789'' ! d"

function decimal :: "nat \<Rightarrow> string" where
  "decimal n = (if n < 10 then [digit_char n] else decimal (n div 10) @ [digit_char (n mod 10)])"
  by pat_completeness auto
termination
  by (relation "measure id") auto

declare decimal.simps [simp del]

definition strip_scheme :: "string \<Rightarrow> string" where
  "strip_scheme t = (if take 9 t = ''gopher://'' then drop 9 t else t)"

text \<open>
  A host that the parser accepts: not empty, at most 255 bytes, without space, tab,
  newline, slash or colon, and with a dot or a leading digit.
\<close>

definition valid_host :: "string \<Rightarrow> bool" where
  "valid_host h =
     (h \<noteq> [] \<and> length h \<le> 255 \<and>
      (\<forall>c \<in> set h. c \<notin> set [CHR '' '', TAB, LF, CHR ''/'', CHR '':'']) \<and>
      (CHR ''.'' \<in> set h \<or> isdigit (char_at0 h)))"

section \<open>Text viewer\<close>

text \<open>
  What one pass of the loop of \<open>handle_text_viewer_interaction\<close> meets: a pending resize
  (with the terminal height that \<open>ioctl\<close> then reports), no usable input (\<open>select\<close> timed
  out, or the bytes read are neither of the next two), the three bytes ESC [ \<open>c\<close> of an
  arrow or page key, or one byte.
\<close>

datatype event = Resize nat | NoInput | Escape char | Key char

text \<open>\<open>viewable_rows\<close> of the text viewer, and the clamping block at the top of its loop.\<close>

definition text_viewable_rows :: "AppState \<Rightarrow> int" where
  "text_viewable_rows s = (if ws_row s > 4 then int (ws_row s) - 4 else 1)"

definition clamp_text_scroll :: "AppState \<Rightarrow> int \<Rightarrow> AppState" where
  "clamp_text_scroll s viewable_rows =
     (let s1 = (if text_scroll_line s > total_content_lines s - viewable_rows
                then s\<lparr>text_scroll_line := total_content_lines s - viewable_rows\<rparr> else s)
      in if text_scroll_line s1 < 0 then s1\<lparr>text_scroll_line := 0\<rparr> else s1)"

text \<open>The effect of an arrow or page key on the scroll line.\<close>

definition text_viewer_arrow :: "AppState \<Rightarrow> int \<Rightarrow> char \<Rightarrow> AppState" where
  "text_viewer_arrow s viewable_rows key =
     (if key = KEY_UP \<and> text_scroll_line s > 0 then
        s\<lparr>text_scroll_line := text_scroll_line s - 1\<rparr>
      else if key = KEY_DOWN then
        s\<lparr>text_scroll_line := text_scroll_line s + 1\<rparr>
      else if key = KEY_PGUP then
        (let n = text_scroll_line s - viewable_rows
         in s\<lparr>text_scroll_line := (if n < 0 then 0 else n)\<rparr>)
      else if key = KEY_PGDN then
        s\<lparr>text_scroll_line := text_scroll_line s + viewable_rows\<rparr>
      else s)"

text \<open>
  The loop of \<open>handle_text_viewer_interaction\<close> over the events it meets. \<open>renders\<close> lists
  the scroll line at each call of \<open>draw_text_viewer\<close>, in order. The key a shows the about
  screen, redraws and goes on; any other single byte ends the loop: the result is then the
  state at that moment and the byte, and the action of the byte (back, forward, reload,
  open, quit) is left to the caller. The result has no byte when the events end first.
\<close>

fun text_viewer_loop :: "string \<Rightarrow> AppState \<Rightarrow> event list \<Rightarrow> int list
    \<Rightarrow> AppState \<times> int list \<times> char option" where
  "text_viewer_loop content s [] renders = (s, renders, None)"
| "text_viewer_loop content s (e # es) renders =
     (if \<not> is_running s then (s, renders, None)
      else
        (let viewable_rows = text_viewable_rows s;
             s1 = clamp_text_scroll (calculate_text_lines s content) viewable_rows
         in case e of
              Resize rows \<Rightarrow>
                text_viewer_loop content (s1\<lparr>ws_row := rows\<rparr>) es
                  (renders @ [text_scroll_line s1])
            | NoInput \<Rightarrow> text_viewer_loop content s1 es renders
            | Escape key \<Rightarrow>
                (let s2 = text_viewer_arrow s1 viewable_rows key
                 in text_viewer_loop content s2 es (renders @ [text_scroll_line s2]))
            | Key c \<Rightarrow>
                if c = CHR ''a''
                then text_viewer_loop content s1 es (renders @ [text_scroll_line s1])
                else (s1, renders, Some c)))"

text \<open>
  \<open>handle_text_viewer_interaction\<close>: the page is drawn once before the loop. Without a
  current node or a body the source reads through a null pointer, which is \<open>None\<close>.
\<close>

definition handle_text_viewer_interaction :: "AppState \<Rightarrow> event list
    \<Rightarrow> (AppState \<times> int list \<times> char option) option" where
  "handle_text_viewer_interaction s events =
     (case current_nav s of
        None \<Rightarrow> None
      | Some c \<Rightarrow>
          (case fmlookup (heap s) c of
             None \<Rightarrow> None
           | Some nav \<Rightarrow>
               (case page_content nav of
                  None \<Rightarrow> None
                | Some content \<Rightarrow>
                    Some (text_viewer_loop content s events [text_scroll_line s]))))"

text \<open>A body of ten lines, and a state that shows it on a terminal of eight rows.\<close>

definition ten_lines :: string where
  "ten_lines = [CHR ''a'', LF, CHR ''b'', LF, CHR ''c'', LF, CHR ''d'', LF, CHR ''e'', LF,
                CHR ''f'', LF, CHR ''g'', LF, CHR ''h'', LF, CHR ''i'', LF, CHR ''j'', LF]"

definition example_text_state :: AppState where
  "example_text_state =
     \<lparr>current_nav = Some 0, gopher_items = [], selectable_items = 0, selected_index = 1,
      scroll_offset = 0, text_scroll_line = 0, total_content_lines = 0, is_running = True,
      ws_row = 8,
      heap = fmupd 0 \<lparr>nav_host = ''example.org'', nav_port = 70, nav_selector = ''0/notes.txt'',
                       page_content = Some ten_lines, nav_prev = None, nav_next = None\<rparr>
               fmempty\<rparr>"

section \<open>Library lemmas\<close>

lemmas atoi_eval =
  atoi_def strtol_def strtol_value_def LONG_MAX_def LONG_MIN_def int_of_long_def
  isspace_def isdigit_def

lemma int_of_long_id: "- (2 ^ 31) \<le> v \<Longrightarrow> v < 2 ^ 31 \<Longrightarrow> int_of_long v = v"
  by (simp add: int_of_long_def)

lemma atoi_value: "atoi_in_range s \<Longrightarrow> atoi s = strtol_value s"
  by (simp add: atoi_in_range_def atoi_def strtol_def LONG_MAX_def LONG_MIN_def int_of_long_id)

lemma atoi_wraps:
  "atoi ''4294967366'' = 70" "atoi ''2147483648'' = - 2147483648" "atoi ''2147483647'' = 2147483647"
  "atoi ''99999999999999999999'' = - 1"
  by (simp_all add: atoi_eval)

lemma strchr_None_iff: "strchr s c = None \<longleftrightarrow> c \<notin> set s"
  by (induction s) auto

lemma strchr_Some_takeWhile:
  "strchr s c = Some i \<Longrightarrow> i = length (takeWhile (\<lambda>x. x \<noteq> c) s) \<and> c \<in> set s"
  by (induction s arbitrary: i) (auto split: if_splits)

lemma strchr_Some_take: "strchr s c = Some i \<Longrightarrow> take i s = takeWhile (\<lambda>x. x \<noteq> c) s"
proof (induction s arbitrary: i)
  case Nil
  then show ?case by simp
next
  case (Cons x xs)
  then show ?case by (auto split: if_splits)
qed

lemma take_min_takeWhile:
  "take (min k (length (takeWhile P s))) s = take k (takeWhile P s)"
proof (induction s arbitrary: k)
  case Nil
  then show ?case by simp
next
  case (Cons x xs)
  then show ?case by (cases k) auto
qed

lemma takeWhile_all: "c \<notin> set s \<Longrightarrow> takeWhile (\<lambda>x. x \<noteq> c) s = s"
  by (induction s) auto

section \<open>Content classifier: the claim\<close>

lemma first_line_bounded:
  "(case strchr content LF of
      Some len \<Rightarrow> strncpy (if len \<ge> MAX_DISPLAY_LENGTH then MAX_DISPLAY_LENGTH - 1 else len) content
    | None \<Rightarrow> strncpy (MAX_DISPLAY_LENGTH - 1) content)
   = take 1023 (takeWhile (\<lambda>c. c \<noteq> LF) content)"
proof (cases "strchr content LF")
  case None
  then have "LF \<notin> set content" by (simp add: strchr_None_iff)
  then show ?thesis using None
    by (simp add: takeWhile_all strncpy_def MAX_DISPLAY_LENGTH_def)
next
  case (Some len)
  have len: "len = length (takeWhile (\<lambda>x. x \<noteq> LF) content)"
    using strchr_Some_takeWhile [OF Some] by simp
  have tk: "take len content = takeWhile (\<lambda>x. x \<noteq> LF) content"
    using strchr_Some_take [OF Some] .
  show ?thesis
  proof (cases "len \<ge> 1024")
    case True
    then have "min 1023 (length (takeWhile (\<lambda>x. x \<noteq> LF) content)) = 1023"
      using len by simp
    then have "take 1023 content = take 1023 (takeWhile (\<lambda>x. x \<noteq> LF) content)"
      using take_min_takeWhile [of 1023 "\<lambda>x. x \<noteq> LF" content] by simp
    then show ?thesis using Some True by (simp add: strncpy_def MAX_DISPLAY_LENGTH_def)
  next
    case False
    then have "take 1023 (takeWhile (\<lambda>x. x \<noteq> LF) content) = takeWhile (\<lambda>x. x \<noteq> LF) content"
      using len by simp
    then show ?thesis using Some False tk by (simp add: strncpy_def MAX_DISPLAY_LENGTH_def)
  qed
qed

text \<open>
  Claim C3. For a node whose body is absent the classifier answers not-a-menu. For a node
  with a fetched body: when the selector's first character is one of 0, 4, 5, 6, 9, g, I, h
  the answer is not-a-menu whatever the body; when the selector is empty or starts with 1
  the answer is is-a-menu whatever the body; in every other case the answer is is-a-menu
  exactly when the first 1023 bytes of the body's first line contain a tab.
\<close>

theorem is_gopher_menu_rules:
  assumes "cstring (nav_selector n)"
  shows "(page_content n = None \<longrightarrow> \<not> is_gopher_menu (Some n)) \<and>
         (\<forall>body. page_content n = Some body \<longrightarrow>
            (char_at0 (nav_selector n) \<in> set ''04569gIh'' \<longrightarrow> \<not> is_gopher_menu (Some n)) \<and>
            (nav_selector n = [] \<or> char_at0 (nav_selector n) = CHR ''1''
               \<longrightarrow> is_gopher_menu (Some n)) \<and>
            (nav_selector n \<noteq> [] \<and> char_at0 (nav_selector n) \<notin> set ''04569gIh1''
               \<longrightarrow> is_gopher_menu (Some n)
                     = (TAB \<in> set (take 1023 (takeWhile (\<lambda>c. c \<noteq> LF) body)))))"
proof -
  have nul: "nav_selector n \<noteq> [] \<Longrightarrow> char_at0 (nav_selector n) \<noteq> NUL"
    using assms by (cases "nav_selector n") (auto simp: cstring_def char_at0_def)
  have empty: "nav_selector n = [] \<Longrightarrow> char_at0 (nav_selector n) = NUL"
    by (simp add: char_at0_def)
  have non_menu: "c \<in> set ''04569gIh'' \<longleftrightarrow>
      c = CHR ''0'' \<or> c = CHR ''4'' \<or> c = CHR ''5'' \<or> c = CHR ''6'' \<or>
      c = CHR ''9'' \<or> c = CHR ''g'' \<or> c = CHR ''I'' \<or> c = CHR ''h''" for c :: char
    by auto
  have other: "c \<notin> set ''04569gIh1'' \<longleftrightarrow>
      \<not> (c = CHR ''0'' \<or> c = CHR ''4'' \<or> c = CHR ''5'' \<or> c = CHR ''6'' \<or>
      c = CHR ''9'' \<or> c = CHR ''g'' \<or> c = CHR ''I'' \<or> c = CHR ''h'') \<and> c \<noteq> CHR ''1''"
    for c :: char
    by auto
  show ?thesis
    unfolding non_menu other
    using nul empty
    by (auto simp add: is_gopher_menu_def Let_def first_line_bounded strchr_None_iff)
qed

theorem is_gopher_menu_rules_witness:
  "is_gopher_menu (Some \<lparr>nav_host = ''example.org'', nav_port = 70, nav_selector = ''7/search'',
       page_content = Some (''1Home'' @ [TAB] @ ''/'' @ [TAB] @ ''example.org'' @ [TAB] @ ''70'' @ [CR, LF]),
       nav_prev = None, nav_next = None\<rparr>)
   \<and> \<not> is_gopher_menu (Some \<lparr>nav_host = ''example.org'', nav_port = 70, nav_selector = ''0/a.txt'',
       page_content = Some (''a'' @ [TAB] @ ''b''), nav_prev = None, nav_next = None\<rparr>)"
  using is_gopher_menu_rules [of "\<lparr>nav_host = ''example.org'', nav_port = 70,
       nav_selector = ''7/search'',
       page_content = Some (''1Home'' @ [TAB] @ ''/'' @ [TAB] @ ''example.org'' @ [TAB] @ ''70'' @ [CR, LF]),
       nav_prev = None, nav_next = None\<rparr>"]
    is_gopher_menu_rules [of "\<lparr>nav_host = ''example.org'', nav_port = 70,
       nav_selector = ''0/a.txt'',
       page_content = Some (''a'' @ [TAB] @ ''b''), nav_prev = None, nav_next = None\<rparr>"]
  by (simp add: cstring_def char_at0_def)

section \<open>Menu line parser: the claims\<close>

lemma trim_end_take:
  "str \<le> e \<Longrightarrow> e < length buf \<Longrightarrow> \<not> isspace (buf ! str) \<Longrightarrow>
   take (trim_end buf str e + 1) buf = rev (dropWhile isspace (rev (take (e + 1) buf)))"
proof (induction buf str e rule: trim_end.induct)
  case (1 buf str e)
  have snoc: "take (e + 1) buf = take e buf @ [buf ! e]"
    using "1.prems"(2) by (simp add: take_Suc_conv_app_nth)
  show ?case
  proof (cases "e > str \<and> isspace (buf ! e)")
    case True
    have "str \<le> e - 1" and "e - 1 < length buf"
      using True "1.prems"(2) by auto
    then have "take (trim_end buf str (e - 1) + 1) buf
               = rev (dropWhile isspace (rev (take (e - 1 + 1) buf)))"
      using "1.IH" [OF True] "1.prems"(3) by blast
    moreover have "e - 1 + 1 = e" using True by simp
    moreover have "trim_end buf str e = trim_end buf str (e - 1)"
      by (simp only: trim_end.simps [of buf str e] if_P [OF True])
    ultimately show ?thesis using True snoc by simp
  next
    case False
    then have "\<not> isspace (buf ! e)"
      using "1.prems"(1,3) by (cases "e = str") auto
    moreover have "trim_end buf str e = e"
      by (simp only: trim_end.simps [of buf str e] if_not_P [OF False])
    ultimately show ?thesis using snoc by simp
  qed
qed

lemma trim_whitespace_eq:
  "trim_whitespace buf =
     (if \<forall>c \<in> set buf. isspace c then buf else rev (dropWhile isspace (rev buf)))"
proof (cases "\<forall>c \<in> set buf. isspace c")
  case True
  then have tw: "takeWhile isspace buf = buf" by (simp add: takeWhile_eq_all_conv)
  show ?thesis unfolding trim_whitespace_def Let_def tw using True by simp
next
  case False
  let ?str = "length (takeWhile isspace buf)"
  have lt: "?str < length buf"
    using False by (induction buf) auto
  then have ns: "\<not> isspace (buf ! ?str)"
    by (rule nth_length_takeWhile)
  have ne: "buf \<noteq> []" using False by auto
  have "take (trim_end buf ?str (length buf - 1) + 1) buf
        = rev (dropWhile isspace (rev (take (length buf - 1 + 1) buf)))"
    using trim_end_take [of ?str "length buf - 1" buf] lt ns ne by simp
  then have "trim_whitespace buf = rev (dropWhile isspace (rev buf))"
    using lt ne by (simp add: trim_whitespace_def Let_def)
  then show ?thesis unfolding if_not_P [OF False] .
qed

lemma trim_whitespace_no_leading:
  assumes "s = [] \<or> \<not> isspace (hd s)"
  shows "trim_whitespace s = trim_both s"
proof (cases s)
  case Nil
  then show ?thesis by (simp add: trim_whitespace_eq trim_both_def)
next
  case (Cons c cs)
  then have "\<not> isspace c" using assms by simp
  then show ?thesis using Cons by (auto simp: trim_whitespace_eq trim_both_def)
qed

lemma strchr_Some_split:
  "strchr s c = Some i \<Longrightarrow>
   take i s @ c # drop (Suc i) s = s \<and> c \<notin> set (take i s) \<and> i < length s"
proof (induction s arbitrary: i)
  case Nil
  then show ?case by simp
next
  case (Cons x xs)
  show ?case
  proof (cases "x = c")
    case True
    then show ?thesis using Cons.prems by simp
  next
    case False
    then obtain j where j: "strchr xs c = Some j" "i = Suc j"
      using Cons.prems by auto
    then show ?thesis using Cons.IH [OF j(1)] False by simp
  qed
qed

lemma strchr_Some_count:
  "strchr s c = Some i \<Longrightarrow>
   length (filter (\<lambda>x. x = c) s) = Suc (length (filter (\<lambda>x. x = c) (drop (Suc i) s)))"
proof (induction s arbitrary: i)
  case Nil
  then show ?case by simp
next
  case (Cons x xs)
  show ?case
  proof (cases "x = c")
    case True
    then show ?thesis using Cons.prems by simp
  next
    case False
    then obtain j where j: "strchr xs c = Some j" "i = Suc j"
      using Cons.prems by auto
    then show ?thesis using Cons.IH [OF j(1)] False by simp
  qed
qed

lemma c_str_at_cstring: "NUL \<notin> set (drop p buf) \<Longrightarrow> c_str_at buf p = drop p buf"
  by (auto simp: c_str_at_def takeWhile_eq_all_conv)

lemma tokenize_prefix:
  "take token (fst (tokenize k token buf)) = take token buf \<and>
   length (fst (tokenize k token buf)) = length buf"
proof (induction k arbitrary: token buf)
  case 0
  then show ?case by simp
next
  case (Suc k)
  show ?case
  proof (cases "strchr (c_str_at buf token) TAB")
    case None
    then show ?thesis by simp
  next
    case (Some i)
    have "take (token + i + 1) (fst (tokenize k (token + i + 1) (buf[token + i := NUL])))
            = take (token + i + 1) (buf[token + i := NUL])"
      and len: "length (fst (tokenize k (token + i + 1) (buf[token + i := NUL]))) = length buf"
      using Suc.IH [of "token + i + 1" "buf[token + i := NUL]"] by simp_all
    then have "take token (take (token + i + 1) (fst (tokenize k (token + i + 1) (buf[token + i := NUL]))))
            = take token (take (token + i + 1) (buf[token + i := NUL]))"
      by simp
    then have "take token (fst (tokenize k (token + i + 1) (buf[token + i := NUL])))
            = take token buf"
      by (simp add: min_def)
    then show ?thesis using Some len
      by (cases "tokenize k (token + i + 1) (buf[token + i := NUL])") simp
  qed
qed

lemma tokenize_count:
  "NUL \<notin> set (drop token buf) \<Longrightarrow>
   length (snd (tokenize k token buf)) = min k (length (filter (\<lambda>c. c = TAB) (drop token buf)))"
proof (induction k arbitrary: token buf)
  case 0
  then show ?case by simp
next
  case (Suc k)
  have cs: "c_str_at buf token = drop token buf"
    using Suc.prems by (rule c_str_at_cstring)
  show ?case
  proof (cases "strchr (drop token buf) TAB")
    case None
    then have "TAB \<notin> set (drop token buf)" by (simp add: strchr_None_iff)
    then have "filter (\<lambda>c. c = TAB) (drop token buf) = []"
      by (auto simp: filter_empty_conv)
    then show ?thesis using None cs by simp
  next
    case (Some i)
    let ?r = "drop token buf"
    have cnt: "length (filter (\<lambda>c. c = TAB) ?r)
               = Suc (length (filter (\<lambda>c. c = TAB) (drop (Suc i) ?r)))"
      using strchr_Some_count [OF Some] .
    have d: "drop (token + i + 1) (buf[token + i := NUL]) = drop (Suc i) ?r"
      by (simp add: add.commute)
    have "set (drop (Suc i) ?r) \<subseteq> set ?r" by (rule set_drop_subset)
    then have "NUL \<notin> set (drop (Suc i) ?r)"
      using Suc.prems by blast
    then have "length (snd (tokenize k (token + i + 1) (buf[token + i := NUL])))
               = min k (length (filter (\<lambda>c. c = TAB) (drop (Suc i) ?r)))"
      using Suc.IH [of "token + i + 1" "buf[token + i := NUL]"] d by simp
    then show ?thesis using Some cs cnt
      by (cases "tokenize k (token + i + 1) (buf[token + i := NUL])") simp
  qed
qed


lemma takeWhile_until: "c \<notin> set a \<Longrightarrow> takeWhile (\<lambda>x. x \<noteq> c) (a @ c # r) = a"
  by (induction a) auto

lemma strip_cr_cstring: "cstring line \<Longrightarrow> cstring (strip_cr line)"
  by (auto simp: cstring_def strip_cr_def dest: in_set_butlastD)

lemma c_str_first_field:
  assumes "NUL \<notin> set rest"
  shows "c_str_at (fst (tokenize (Suc k) 1 (ty # rest))) 1 = takeWhile (\<lambda>c. c \<noteq> TAB) rest"
proof -
  have cs: "c_str_at (ty # rest) 1 = rest"
    using assms by (simp add: c_str_at_cstring)
  show ?thesis
  proof (cases "strchr rest TAB")
    case None
    then have "TAB \<notin> set rest" by (simp add: strchr_None_iff)
    then have tw: "takeWhile (\<lambda>c. c \<noteq> TAB) rest = rest" by (rule takeWhile_all)
    have "fst (tokenize (Suc k) 1 (ty # rest)) = ty # rest"
      using None cs by simp
    then show ?thesis unfolding tw using cs by simp
  next
    case (Some i)
    let ?buf' = "(ty # rest)[1 + i := NUL]"
    let ?B = "fst (tokenize k (1 + i + 1) ?buf')"
    have sp: "take i rest @ TAB # drop (Suc i) rest = rest" and ilt: "i < length rest"
      using strchr_Some_split [OF Some] by simp_all
    have tk: "take i rest = takeWhile (\<lambda>c. c \<noteq> TAB) rest"
      using strchr_Some_take [OF Some] .
    have pre: "take (1 + i + 1) ?B = take (1 + i + 1) ?buf'"
      using tokenize_prefix [of "1 + i + 1" k ?buf'] by simp
    have "take (1 + i + 1) ?buf' = ty # take i rest @ [NUL]"
      using ilt by (simp add: take_Suc_conv_app_nth)
    then have "take (1 + i + 1) ?B = ty # take i rest @ [NUL]"
      using pre by simp
    then have "take (1 + i + 1) ?B @ drop (1 + i + 1) ?B
               = (ty # take i rest @ [NUL]) @ drop (1 + i + 1) ?B"
      by simp
    then have B: "?B = ty # take i rest @ NUL # drop (1 + i + 1) ?B"
      by simp
    have "NUL \<notin> set (take i rest)"
      using assms by (auto dest: in_set_takeD)
    then have "takeWhile (\<lambda>c. c \<noteq> NUL) (take i rest @ NUL # drop (1 + i + 1) ?B) = take i rest"
      by (rule takeWhile_until)
    then have "c_str_at (ty # take i rest @ NUL # drop (1 + i + 1) ?B) 1 = take i rest"
      by (simp add: c_str_at_def)
    then have "c_str_at ?B 1 = take i rest"
      using B by simp
    moreover have "fst (tokenize (Suc k) 1 (ty # rest)) = ?B"
      using Some cs by (cases "tokenize k (1 + i + 1) ?buf'") simp
    ultimately show ?thesis using tk by simp
  qed
qed

lemma parse_gopher_line_info:
  assumes cs: "cstring line0" and line: "strip_cr line0 = ty # rest" and ne: "rest \<noteq> []"
    and info: "ty = CHR ''i'' \<or> length (filter (\<lambda>c. c = TAB) rest) < 2"
  shows "parse_gopher_line line0 current_host current_port
         = Some (zero_item\<lparr>item_type := ty, is_selectable := False,
                   display_string :=
                     trim_whitespace (take 1023 (takeWhile (\<lambda>c. c \<noteq> TAB) rest))\<rparr>)"
proof -
  have nul: "NUL \<notin> set (ty # rest)"
    using strip_cr_cstring [OF cs] line by (simp add: cstring_def)
  then have nr: "NUL \<notin> set rest" and ty: "ty \<noteq> NUL" by auto
  have skip: "\<not> (char_at0 (ty # rest) = NUL \<or> ty # rest = ''.'' \<or> length (ty # rest) < 2)"
    using ty ne by (cases rest) (simp_all add: char_at0_def)
  obtain buf found where tok: "tokenize 3 1 (ty # rest) = (buf, found)"
    by (cases "tokenize 3 1 (ty # rest)") simp
  have "length found = min 3 (length (filter (\<lambda>c. c = TAB) rest))"
    using tokenize_count [of 1 "ty # rest" 3] nr tok by simp
  then have few: "ty = CHR ''i'' \<or> length (1 # found) < 3"
    using info by auto
  have "c_str_at (fst (tokenize (Suc 2) 1 (ty # rest))) 1 = takeWhile (\<lambda>c. c \<noteq> TAB) rest"
    using nr by (rule c_str_first_field)
  then have disp: "c_str_at buf 1 = takeWhile (\<lambda>c. c \<noteq> TAB) rest"
    using tok by (simp add: numeral_3_eq_3)
  have few': "(ty # rest) ! 0 = CHR ''i'' \<or> length (1 # found) < 3"
    using few by simp
  show ?thesis
    unfolding parse_gopher_line_def line Let_def if_not_P [OF skip] tok prod.case if_P [OF few']
    using disp by (simp add: strncpy_def MAX_DISPLAY_LENGTH_def)
qed


lemma takeWhile_pass:
  "c \<notin> set a \<Longrightarrow> x \<noteq> c \<Longrightarrow>
   takeWhile (\<lambda>y. y \<noteq> c) (a @ x # r) = a @ x # takeWhile (\<lambda>y. y \<noteq> c) r"
  by (induction a) auto

lemma strchr_first: "c \<notin> set a \<Longrightarrow> strchr (a @ c # r) c = Some (length a)"
  by (induction a) auto

lemma c_str_at_mid: "NUL \<notin> set a \<Longrightarrow> c_str_at (pre @ a @ NUL # r) (length pre) = a"
  by (simp add: c_str_at_def takeWhile_until)

lemma c_str_at_end: "NUL \<notin> set a \<Longrightarrow> c_str_at (pre @ a) (length pre) = a"
  by (auto simp: c_str_at_def takeWhile_eq_all_conv)

lemma tokenize_step:
  assumes "NUL \<notin> set a" and "TAB \<notin> set a"
  shows "tokenize (Suc k) (length pre) (pre @ a @ TAB # r)
         = (case tokenize k (length pre + length a + 1) (pre @ a @ NUL # r) of
              (b, f) \<Rightarrow> (b, (length pre + length a + 1) # f))"
proof -
  have "c_str_at (pre @ a @ TAB # r) (length pre) = a @ TAB # takeWhile (\<lambda>c. c \<noteq> NUL) r"
    using assms(1) by (simp add: c_str_at_def takeWhile_pass)
  then have "strchr (c_str_at (pre @ a @ TAB # r) (length pre)) TAB = Some (length a)"
    using assms(2) by (simp add: strchr_first)
  moreover have "(pre @ a @ TAB # r)[length pre + length a := NUL] = pre @ a @ NUL # r"
    by (simp add: list_update_append)
  ultimately show ?thesis by simp
qed

lemma tokenize_stop:
  assumes "NUL \<notin> set a" and "TAB \<notin> set a"
  shows "tokenize (Suc k) (length pre) (pre @ a) = (pre @ a, [])"
proof -
  have "c_str_at (pre @ a) (length pre) = a"
    using assms(1) by (rule c_str_at_end)
  then have "strchr (c_str_at (pre @ a) (length pre)) TAB = None"
    using assms(2) by (simp add: strchr_None_iff)
  then show ?thesis by simp
qed

lemma tokenize_three_fields:
  assumes "NUL \<notin> set d" "TAB \<notin> set d" "NUL \<notin> set sel" "TAB \<notin> set sel"
    "NUL \<notin> set h" "TAB \<notin> set h"
  shows "tokenize 3 1 (ty # d @ TAB # sel @ TAB # h)
         = (ty # d @ NUL # sel @ NUL # h, [length d + 2, length d + length sel + 3])"
proof -
  have s3: "tokenize (Suc 0) (length (ty # d @ NUL # sel @ [NUL])) ((ty # d @ NUL # sel @ [NUL]) @ h)
            = ((ty # d @ NUL # sel @ [NUL]) @ h, [])"
    using assms(5,6) by (rule tokenize_stop)
  have s2: "tokenize (Suc (Suc 0)) (length (ty # d @ [NUL])) ((ty # d @ [NUL]) @ sel @ TAB # h)
            = (case tokenize (Suc 0) (length (ty # d @ [NUL]) + length sel + 1)
                      ((ty # d @ [NUL]) @ sel @ NUL # h) of
                 (b, f) \<Rightarrow> (b, (length (ty # d @ [NUL]) + length sel + 1) # f))"
    using assms(3,4) by (rule tokenize_step)
  have s1: "tokenize (Suc (Suc (Suc 0))) (length [ty]) ([ty] @ d @ TAB # sel @ TAB # h)
            = (case tokenize (Suc (Suc 0)) (length [ty] + length d + 1)
                      ([ty] @ d @ NUL # sel @ TAB # h) of
                 (b, f) \<Rightarrow> (b, (length [ty] + length d + 1) # f))"
    using assms(1,2) by (rule tokenize_step)
  show ?thesis
    using s1 s2 s3 by (simp add: numeral_3_eq_3)
qed

lemma tokenize_four_fields:
  assumes "NUL \<notin> set d" "TAB \<notin> set d" "NUL \<notin> set sel" "TAB \<notin> set sel"
    "NUL \<notin> set h" "TAB \<notin> set h"
  shows "tokenize 3 1 (ty # d @ TAB # sel @ TAB # h @ TAB # pf)
         = (ty # d @ NUL # sel @ NUL # h @ NUL # pf,
            [length d + 2, length d + length sel + 3, length d + length sel + length h + 4])"
proof -
  have s3: "tokenize (Suc 0) (length (ty # d @ NUL # sel @ [NUL]))
              ((ty # d @ NUL # sel @ [NUL]) @ h @ TAB # pf)
            = (case tokenize 0 (length (ty # d @ NUL # sel @ [NUL]) + length h + 1)
                      ((ty # d @ NUL # sel @ [NUL]) @ h @ NUL # pf) of
                 (b, f) \<Rightarrow> (b, (length (ty # d @ NUL # sel @ [NUL]) + length h + 1) # f))"
    using assms(5,6) by (rule tokenize_step)
  have s2: "tokenize (Suc (Suc 0)) (length (ty # d @ [NUL]))
              ((ty # d @ [NUL]) @ sel @ TAB # h @ TAB # pf)
            = (case tokenize (Suc 0) (length (ty # d @ [NUL]) + length sel + 1)
                      ((ty # d @ [NUL]) @ sel @ NUL # h @ TAB # pf) of
                 (b, f) \<Rightarrow> (b, (length (ty # d @ [NUL]) + length sel + 1) # f))"
    using assms(3,4) by (rule tokenize_step)
  have s1: "tokenize (Suc (Suc (Suc 0))) (length [ty]) ([ty] @ d @ TAB # sel @ TAB # h @ TAB # pf)
            = (case tokenize (Suc (Suc 0)) (length [ty] + length d + 1)
                      ([ty] @ d @ NUL # sel @ TAB # h @ TAB # pf) of
                 (b, f) \<Rightarrow> (b, (length [ty] + length d + 1) # f))"
    using assms(1,2) by (rule tokenize_step)
  show ?thesis
    using s1 s2 s3 by (simp add: numeral_3_eq_3)
qed


lemma parse_gopher_line_link:
  assumes cs: "cstring line0"
    and line: "strip_cr line0 = ty # d @ TAB # sel @ TAB # h @ tail"
    and tail: "tail = (case port_field of None \<Rightarrow> [] | Some pf \<Rightarrow> TAB # pf)"
    and ty: "ty \<noteq> CHR ''i''"
    and tabs: "TAB \<notin> set d" "TAB \<notin> set sel" "TAB \<notin> set h"
  shows "parse_gopher_line line0 current_host current_port
         = Some \<lparr>item_type = ty,
                  display_string = trim_whitespace (take 1023 d),
                  item_selector = take 1023 sel,
                  item_host = take 255 (if h \<noteq> [] then h else current_host),
                  item_port = (case port_field of None \<Rightarrow> current_port | Some pf \<Rightarrow> atoi pf),
                  is_selectable =
                    (ty \<in> set ''0127h'' \<and>
                     take 255 (if h \<noteq> [] then h else current_host) \<noteq> ''null.host'' \<and>
                     take 255 (if h \<noteq> [] then h else current_host) \<noteq> ''error.host''),
                  menu_index = 0\<rparr>"
proof -
  let ?line = "ty # d @ TAB # sel @ TAB # h @ tail"
  have nul: "NUL \<notin> set ?line"
    using strip_cr_cstring [OF cs] line by (simp add: cstring_def)
  then have n: "ty \<noteq> NUL" "NUL \<notin> set d" "NUL \<notin> set sel" "NUL \<notin> set h" "NUL \<notin> set tail"
    by auto
  have c0: "char_at0 (ty # xs) \<noteq> NUL" for xs
    using n(1) by (simp add: char_at0_def)
  have sel_type: "(strchr ''0127h'' ty \<noteq> None) = (ty \<in> set ''0127h'')"
    by (simp only: strchr_None_iff simp_thms)
  have h0: "(char_at0 h \<noteq> NUL) = (h \<noteq> [])"
    using n(4) by (cases h) (auto simp: char_at0_def)
  show ?thesis
  proof (cases port_field)
    case None
    then have t: "tail = []" using tail by simp
    have tok: "tokenize 3 1 (ty # d @ TAB # sel @ TAB # h)
               = (ty # d @ NUL # sel @ NUL # h, [length d + 2, length d + length sel + 3])"
      using n(2) tabs(1) n(3) tabs(2) n(4) tabs(3) by (rule tokenize_three_fields)
    have f0: "c_str_at (ty # d @ NUL # sel @ NUL # h) 1 = d"
      using c_str_at_mid [OF n(2), of "[ty]" "sel @ NUL # h"] by simp
    have f1: "c_str_at (ty # d @ NUL # sel @ NUL # h) (length d + 2) = sel"
      using c_str_at_mid [OF n(3), of "ty # d @ [NUL]" h] by simp
    have f2: "c_str_at (ty # d @ NUL # sel @ NUL # h) (length d + length sel + 3) = h"
      using c_str_at_end [OF n(4), of "ty # d @ NUL # sel @ [NUL]"]
      by (simp add: numeral_3_eq_3)
    show ?thesis
      unfolding parse_gopher_line_def line Let_def t append_Nil2 tok prod.case
      using ty f0 f1 f2 None sel_type h0 c0
      by (simp add: strncpy_def MAX_DISPLAY_LENGTH_def MAX_SELECTOR_LENGTH_def
          MAX_HOST_LENGTH_def zero_item_def del: strchr.simps set_simps)
  next
    case (Some pf)
    then have t: "tail = TAB # pf" using tail by simp
    have npf: "NUL \<notin> set pf" using n(5) t by simp
    have tok: "tokenize 3 1 (ty # d @ TAB # sel @ TAB # h @ TAB # pf)
               = (ty # d @ NUL # sel @ NUL # h @ NUL # pf,
                  [length d + 2, length d + length sel + 3, length d + length sel + length h + 4])"
      using n(2) tabs(1) n(3) tabs(2) n(4) tabs(3) by (rule tokenize_four_fields)
    let ?B = "ty # d @ NUL # sel @ NUL # h @ NUL # pf"
    have f0: "c_str_at ?B 1 = d"
      using c_str_at_mid [OF n(2), of "[ty]" "sel @ NUL # h @ NUL # pf"] by simp
    have f1: "c_str_at ?B (length d + 2) = sel"
      using c_str_at_mid [OF n(3), of "ty # d @ [NUL]" "h @ NUL # pf"] by simp
    have f2: "c_str_at ?B (length d + length sel + 3) = h"
      using c_str_at_mid [OF n(4), of "ty # d @ NUL # sel @ [NUL]" pf]
      by (simp add: numeral_3_eq_3)
    have f3: "c_str_at ?B (length d + length sel + length h + 4) = pf"
      using c_str_at_end [OF npf, of "ty # d @ NUL # sel @ NUL # h @ [NUL]"]
      by (simp add: numeral_eq_Suc add.assoc)
    show ?thesis
      unfolding parse_gopher_line_def line Let_def t tok prod.case
      using ty f0 f1 f2 f3 Some sel_type h0 c0
      by (simp add: strncpy_def MAX_DISPLAY_LENGTH_def MAX_SELECTOR_LENGTH_def
          MAX_HOST_LENGTH_def zero_item_def del: strchr.simps set_simps)
  qed
qed


text \<open>
  Claim C4, as amended. For every menu line whose type tag is not \<open>i\<close> and that carries
  the display, selector and host fields, with or without a port field: the item's host is
  the first 255 bytes of the host field when that field is not empty and otherwise of the
  current host (so it is the field or the current host itself when they fit the host
  buffer); the item's port is \<open>atoi\<close> of the port field when there is one (for a value that
  an \<open>int\<close> holds) and the current port when there is none; the item is selectable exactly
  when its type is one of 0, 1, 2, 7, h and its host is neither \<open>null.host\<close> nor
  \<open>error.host\<close>.
\<close>

theorem parse_gopher_line_link_fields:
  assumes "cstring line0"
    and "strip_cr line0 = ty # display @ TAB # selector @ TAB # host_field @
           (case port_field of None \<Rightarrow> [] | Some pf \<Rightarrow> TAB # pf)"
    and "ty \<noteq> CHR ''i''"
    and "TAB \<notin> set display" and "TAB \<notin> set selector" and "TAB \<notin> set host_field"
    and "\<forall>pf. port_field = Some pf \<longrightarrow> atoi_in_range pf"
  shows "\<exists>item. parse_gopher_line line0 current_host current_port = Some item \<and>
           item_host item = take 255 (if host_field \<noteq> [] then host_field else current_host) \<and>
           (length host_field \<le> 255 \<and> length current_host \<le> 255 \<longrightarrow>
              item_host item = (if host_field \<noteq> [] then host_field else current_host)) \<and>
           item_port item = (case port_field of None \<Rightarrow> current_port | Some pf \<Rightarrow> atoi pf) \<and>
           is_selectable item =
             (ty \<in> set ''0127h'' \<and> item_host item \<noteq> ''null.host'' \<and>
              item_host item \<noteq> ''error.host'')"
  unfolding parse_gopher_line_link [OF assms(1,2) refl assms(3,4,5,6)]
  by (simp del: set_simps)

theorem parse_gopher_line_link_fields_witness:
  "map_option item_host
     (parse_gopher_line (''1Home'' @ [TAB] @ ''/'' @ [TAB] @ ''example.org'' @ [TAB] @ ''70'')
        ''current.org'' 7070) = Some ''example.org'' \<and>
   map_option item_port
     (parse_gopher_line (''1Home'' @ [TAB] @ ''/'' @ [TAB] @ ''example.org'' @ [TAB] @ ''70'')
        ''current.org'' 7070) = Some 70 \<and>
   map_option is_selectable
     (parse_gopher_line (''1Home'' @ [TAB] @ ''/'' @ [TAB] @ ''example.org'' @ [TAB] @ ''70'')
        ''current.org'' 7070) = Some True \<and>
   map_option is_selectable
     (parse_gopher_line (''1Dead'' @ [TAB] @ ''/'' @ [TAB] @ ''null.host'' @ [TAB] @ ''70'')
        ''current.org'' 7070) = Some False"
proof -
  have a70: "atoi ''70'' = 70"
    by (simp add: atoi_eval)
  have r70: "atoi_in_range ''70''"
    by (simp add: atoi_in_range_def strtol_value_def isspace_def isdigit_def)
  have home: "\<exists>item. parse_gopher_line
        (''1Home'' @ [TAB] @ ''/'' @ [TAB] @ ''example.org'' @ [TAB] @ ''70'') ''current.org'' 7070
        = Some item \<and> item_host item = ''example.org'' \<and> item_port item = 70 \<and>
          is_selectable item = True"
    using parse_gopher_line_link_fields [of
        "''1Home'' @ [TAB] @ ''/'' @ [TAB] @ ''example.org'' @ [TAB] @ ''70''"
        "CHR ''1''" "''Home''" "''/''" "''example.org''" "Some ''70''" "''current.org''" 7070]
      a70 r70
    by (auto simp add: cstring_def strip_cr_def)
  have dead: "\<exists>item. parse_gopher_line
        (''1Dead'' @ [TAB] @ ''/'' @ [TAB] @ ''null.host'' @ [TAB] @ ''70'') ''current.org'' 7070
        = Some item \<and> is_selectable item = False"
    using parse_gopher_line_link_fields [of
        "''1Dead'' @ [TAB] @ ''/'' @ [TAB] @ ''null.host'' @ [TAB] @ ''70''"
        "CHR ''1''" "''Dead''" "''/''" "''null.host''" "Some ''70''" "''current.org''" 7070]
      a70 r70
    by (auto simp add: cstring_def strip_cr_def)
  show ?thesis using home dead by auto
qed

text \<open>
  Claim C4 as stated fails for a host field longer than the host buffer: a line with a
  host field of 256 bytes yields an item whose host is its first 255 bytes.
\<close>

theorem parse_gopher_line_long_host_counterexample:
  "map_option item_host
     (parse_gopher_line (''1Long'' @ [TAB] @ ''/'' @ [TAB] @ replicate 256 (CHR ''a''))
        ''example.org'' 70) = Some (replicate 255 (CHR ''a'')) \<and>
   replicate 255 (CHR ''a'') \<noteq> replicate 256 (CHR ''a'')"
proof -
  have cs: "cstring (''1Long'' @ [TAB] @ ''/'' @ [TAB] @ replicate 256 (CHR ''a''))"
    by (simp add: cstring_def)
  have sc: "strip_cr (''1Long'' @ [TAB] @ ''/'' @ [TAB] @ replicate 256 (CHR ''a''))
            = CHR ''1'' # ''Long'' @ TAB # ''/'' @ TAB # replicate 256 (CHR ''a'') @ []"
    by (simp add: strip_cr_def)
  have "parse_gopher_line (''1Long'' @ [TAB] @ ''/'' @ [TAB] @ replicate 256 (CHR ''a''))
          ''example.org'' 70
        = Some \<lparr>item_type = CHR ''1'', display_string = trim_whitespace (take 1023 ''Long''),
                 item_selector = take 1023 ''/'',
                 item_host = take 255 (if replicate 256 (CHR ''a'') \<noteq> []
                                        then replicate 256 (CHR ''a'') else ''example.org''),
                 item_port = (case None of None \<Rightarrow> 70 | Some pf \<Rightarrow> atoi pf),
                 is_selectable =
                   (CHR ''1'' \<in> set ''0127h'' \<and>
                    take 255 (if replicate 256 (CHR ''a'') \<noteq> []
                              then replicate 256 (CHR ''a'') else ''example.org'') \<noteq> ''null.host'' \<and>
                    take 255 (if replicate 256 (CHR ''a'') \<noteq> []
                              then replicate 256 (CHR ''a'') else ''example.org'') \<noteq> ''error.host''),
                 menu_index = 0\<rparr>"
    by (rule parse_gopher_line_link [OF cs sc]) simp_all
  then show ?thesis by simp
qed

text \<open>
  Claim C5, as amended. For every line that is not skipped, whose type tag is \<open>i\<close> or that
  has fewer than two tabs after the type character (no selector or no host field): the
  item is not selectable, its selector and host are empty, its port and ordinal are 0, and
  its display text is the first tab-separated field of the remainder of the line, cut to
  1023 bytes, with white space trimmed. The statement is for a display field that does not
  begin with white space.
\<close>

theorem parse_gopher_line_informational:
  assumes "cstring line0" and "strip_cr line0 = ty # rest" and "rest \<noteq> []"
    and "ty = CHR ''i'' \<or> length (filter (\<lambda>c. c = TAB) rest) < 2"
    and "display = takeWhile (\<lambda>c. c \<noteq> TAB) rest"
    and "display = [] \<or> \<not> isspace (hd display)"
  shows "parse_gopher_line line0 current_host current_port
         = Some \<lparr>item_type = ty, display_string = trim_both (take 1023 display),
                  item_selector = [], item_host = [], item_port = 0,
                  is_selectable = False, menu_index = 0\<rparr>"
proof -
  have "take 1023 display = [] \<or> \<not> isspace (hd (take 1023 display))"
    using assms(6) by (cases display) auto
  then have "trim_whitespace (take 1023 display) = trim_both (take 1023 display)"
    by (rule trim_whitespace_no_leading)
  then show ?thesis
    unfolding parse_gopher_line_info [OF assms(1,2,3,4)] assms(5) [symmetric]
    by (simp add: zero_item_def)
qed

theorem parse_gopher_line_informational_witness:
  "parse_gopher_line (''iInfo text'' @ [TAB, TAB, TAB]) ''example.org'' 70
   = Some \<lparr>item_type = CHR ''i'', display_string = ''Info text'',
            item_selector = [], item_host = [], item_port = 0,
            is_selectable = False, menu_index = 0\<rparr>"
  using parse_gopher_line_informational [of "''iInfo text'' @ [TAB, TAB, TAB]" "CHR ''i''"
      "''Info text'' @ [TAB, TAB, TAB]" "''Info text''" "''example.org''" 70]
  by (simp add: cstring_def strip_cr_def isspace_def trim_both_def)

text \<open>
  Claim C5 as stated fails for an informational line with more fields: the tokenizer has
  cut the line buffer at its first tab before the display text is copied, so the display
  text is the first field, not the trimmed remainder of the line.
\<close>

theorem parse_gopher_line_remainder_counterexample:
  "map_option display_string
     (parse_gopher_line (''iHello'' @ [TAB] @ ''foo'' @ [TAB] @ ''host'' @ [TAB] @ ''70'')
        ''example.org'' 70) = Some ''Hello'' \<and>
   trim_both (''Hello'' @ [TAB] @ ''foo'' @ [TAB] @ ''host'' @ [TAB] @ ''70'') \<noteq> ''Hello''"
proof -
  have cs: "cstring (''iHello'' @ [TAB] @ ''foo'' @ [TAB] @ ''host'' @ [TAB] @ ''70'')"
    by (simp add: cstring_def)
  have sc: "strip_cr (''iHello'' @ [TAB] @ ''foo'' @ [TAB] @ ''host'' @ [TAB] @ ''70'')
            = CHR ''i'' # (''Hello'' @ [TAB] @ ''foo'' @ [TAB] @ ''host'' @ [TAB] @ ''70'')"
    by (simp add: strip_cr_def)
  have tw: "trim_whitespace ''Hello'' = ''Hello''"
    by (simp add: trim_whitespace_eq isspace_def)
  have "parse_gopher_line (''iHello'' @ [TAB] @ ''foo'' @ [TAB] @ ''host'' @ [TAB] @ ''70'')
          ''example.org'' 70
        = Some (zero_item\<lparr>item_type := CHR ''i'', is_selectable := False,
                  display_string := trim_whitespace (take 1023 (takeWhile (\<lambda>c. c \<noteq> TAB)
                    (''Hello'' @ [TAB] @ ''foo'' @ [TAB] @ ''host'' @ [TAB] @ ''70'')))\<rparr>)"
    by (rule parse_gopher_line_info [OF cs sc]) simp_all
  then have "map_option display_string
     (parse_gopher_line (''iHello'' @ [TAB] @ ''foo'' @ [TAB] @ ''host'' @ [TAB] @ ''70'')
        ''example.org'' 70) = Some ''Hello''"
    using tw by simp
  moreover have "trim_both (''Hello'' @ [TAB] @ ''foo'' @ [TAB] @ ''host'' @ [TAB] @ ''70'')
                 \<noteq> ''Hello''"
    by (simp add: trim_both_def isspace_def)
  ultimately show ?thesis by simp
qed

section \<open>Address parser: the claims\<close>

lemma strrchr_None_iff: "strrchr s c = None \<longleftrightarrow> c \<notin> set s"
  by (induction s) (auto split: option.splits)

lemma strrchr_last:
  assumes "c \<notin> set b"
  shows "strrchr (a @ c # b) c = Some (length a)"
proof -
  have none: "strrchr b c = None" using assms by (simp add: strrchr_None_iff)
  show ?thesis by (induction a) (simp_all add: none)
qed

lemma parse_gopher_address_parts:
  assumes ne: "address \<noteq> []"
    and parts: "strip_scheme (take 1289 address)
                = host @ (case port of None \<Rightarrow> [] | Some pt \<Rightarrow> CHR '':'' # pt) @
                  (case selector of None \<Rightarrow> [] | Some sl \<Rightarrow> CHR ''/'' # sl)"
    and slash: "CHR ''/'' \<notin> set host" "\<forall>pt. port = Some pt \<longrightarrow> CHR ''/'' \<notin> set pt"
    and colon: "\<forall>pt. port = Some pt \<longrightarrow> CHR '':'' \<notin> set pt" "port = None \<longrightarrow> CHR '':'' \<notin> set host"
  shows "parse_gopher_address address
         = (if port = Some [] then None
            else check_host_port host (case port of None \<Rightarrow> 70 | Some pt \<Rightarrow> atoi pt)
                   (case selector of None \<Rightarrow> [] | Some sl \<Rightarrow> take 1023 sl))"
proof -
  let ?P = "case port of None \<Rightarrow> [] | Some pt \<Rightarrow> CHR '':'' # pt"
  let ?hp = "host @ ?P"
  have nslash: "CHR ''/'' \<notin> set ?hp"
    using slash by (cases port) auto
  let ?S = "case selector of None \<Rightarrow> [] | Some sl \<Rightarrow> CHR ''/'' # sl"
  have t: "strncpy (MAX_URL_INPUT_LENGTH - 1) address = take 1289 address"
    by (simp add: strncpy_def MAX_URL_INPUT_LENGTH_def MAX_HOST_LENGTH_def MAX_SELECTOR_LENGTH_def)
  have "strip_scheme (take 1289 address) = ?hp @ ?S"
    using parts by (simp only: append_assoc)
  then have pp: "(if take 9 (take 1289 address) = ''gopher://'' then drop 9 (take 1289 address)
             else take 1289 address) = ?hp @ ?S"
    unfolding strip_scheme_def .
  have sel: "(case strchr (?hp @ (case selector of None \<Rightarrow> [] | Some sl \<Rightarrow> CHR ''/'' # sl))
                    (CHR ''/'') of
                None \<Rightarrow> []
              | Some i \<Rightarrow> strncpy (MAX_SELECTOR_LENGTH - 1)
                  (drop (Suc i) (?hp @ (case selector of None \<Rightarrow> [] | Some sl \<Rightarrow> CHR ''/'' # sl))))
             = (case selector of None \<Rightarrow> [] | Some sl \<Rightarrow> take 1023 sl)"
  proof (cases selector)
    case None
    then show ?thesis using nslash by (simp add: strchr_None_iff [THEN iffD2])
  next
    case (Some sl)
    have "strchr (?hp @ CHR ''/'' # sl) (CHR ''/'') = Some (length ?hp)"
      using nslash by (rule strchr_first)
    then show ?thesis using Some by (simp add: strncpy_def MAX_SELECTOR_LENGTH_def)
  qed
  have hps: "(case strchr (?hp @ (case selector of None \<Rightarrow> [] | Some sl \<Rightarrow> CHR ''/'' # sl))
                    (CHR ''/'') of
                None \<Rightarrow> ?hp @ (case selector of None \<Rightarrow> [] | Some sl \<Rightarrow> CHR ''/'' # sl)
              | Some i \<Rightarrow> take i (?hp @ (case selector of None \<Rightarrow> [] | Some sl \<Rightarrow> CHR ''/'' # sl)))
             = ?hp"
  proof (cases selector)
    case None
    then show ?thesis using nslash by (simp add: strchr_None_iff [THEN iffD2])
  next
    case (Some sl)
    have "strchr (?hp @ CHR ''/'' # sl) (CHR ''/'') = Some (length ?hp)"
      using nslash by (rule strchr_first)
    then show ?thesis using Some by simp
  qed
  have core: "parse_gopher_address address
        = (case strrchr ?hp (CHR '':'') of
             Some j \<Rightarrow>
               if drop (Suc j) ?hp \<noteq> []
               then check_host_port (take j ?hp) (atoi (drop (Suc j) ?hp))
                      (case selector of None \<Rightarrow> [] | Some sl \<Rightarrow> take 1023 sl)
               else None
           | None \<Rightarrow> check_host_port ?hp 70
                      (case selector of None \<Rightarrow> [] | Some sl \<Rightarrow> take 1023 sl))"
    unfolding parse_gopher_address_def Let_def if_not_P [OF ne] t pp sel hps
    by (rule refl)
  show ?thesis
  proof (cases port)
    case None
    then have "strrchr ?hp (CHR '':'') = None"
      using colon(2) by (simp add: strrchr_None_iff)
    then show ?thesis using core None by simp
  next
    case (Some pt)
    then have "strrchr ?hp (CHR '':'') = Some (length host)"
      using colon(1) by (simp add: strrchr_last)
    then show ?thesis using core Some by simp
  qed
qed


lemma digit_char_value:
  assumes "d < 10"
  shows "isdigit (digit_char d) \<and> of_char (digit_char d) - 48 = int d"
proof -
  have "d = 0 \<or> d = 1 \<or> d = 2 \<or> d = 3 \<or> d = 4 \<or> d = 5 \<or> d = 6 \<or> d = 7 \<or> d = 8 \<or> d = 9"
    using assms by arith
  then show ?thesis
    by (elim disjE) (simp_all add: digit_char_def isdigit_def)
qed

lemma isdigit_not_special:
  "isdigit c \<Longrightarrow> \<not> isspace c \<and> c \<noteq> CHR ''-'' \<and> c \<noteq> CHR ''+'' \<and> c \<noteq> CHR '':'' \<and> c \<noteq> CHR ''/''"
  by (auto simp: isdigit_def isspace_def)

lemma decimal_digits: "decimal n \<noteq> [] \<and> (\<forall>c \<in> set (decimal n). isdigit c)"
proof (induction n rule: decimal.induct)
  case (1 n)
  show ?case
  proof (cases "n < 10")
    case True
    then show ?thesis using digit_char_value [of n] by (simp add: decimal.simps [of n])
  next
    case False
    have "n mod 10 < 10" by simp
    then have "isdigit (digit_char (n mod 10))" using digit_char_value by blast
    then show ?thesis using False "1.IH" by (simp add: decimal.simps [of n])
  qed
qed

lemma digits_value_snoc:
  "\<forall>x \<in> set ds. isdigit x \<Longrightarrow> isdigit c \<Longrightarrow>
   digits_value acc (ds @ [c]) = digits_value acc ds * 10 + (of_char c - 48)"
  by (induction ds arbitrary: acc) simp_all

lemma digits_value_decimal: "digits_value 0 (decimal n) = int n"
proof (induction n rule: decimal.induct)
  case (1 n)
  show ?case
  proof (cases "n < 10")
    case True
    then show ?thesis using digit_char_value [of n] by (simp add: decimal.simps [of n])
  next
    case False
    have lt: "n mod 10 < 10" by simp
    have d: "isdigit (digit_char (n mod 10))"
      and v: "of_char (digit_char (n mod 10)) - 48 = int (n mod 10)"
      using digit_char_value [OF lt] by simp_all
    have ds: "\<forall>x \<in> set (decimal (n div 10)). isdigit x"
      using decimal_digits by blast
    have "digits_value 0 (decimal (n div 10) @ [digit_char (n mod 10)])
          = digits_value 0 (decimal (n div 10)) * 10 + (of_char (digit_char (n mod 10)) - 48)"
      using ds d by (rule digits_value_snoc)
    also have "\<dots> = int (n div 10) * 10 + int (n mod 10)"
      using "1.IH" False v by simp
    also have "\<dots> = int n" by (simp add: zmod_int zdiv_int)
    finally show ?thesis using False by (simp add: decimal.simps [of n])
  qed
qed

lemma strtol_value_decimal: "strtol_value (decimal n) = int n"
proof -
  obtain c cs where dc: "decimal n = c # cs"
    using decimal_digits [of n] by (cases "decimal n") auto
  then have "isdigit c" using decimal_digits [of n] by simp
  then have "\<not> isspace c" "c \<noteq> CHR ''-''" "c \<noteq> CHR ''+''"
    using isdigit_not_special by blast+
  then have "strtol_value (c # cs) = digits_value 0 (c # cs)"
    by (simp add: strtol_value_def)
  then show ?thesis using digits_value_decimal [of n] dc by simp
qed

lemma atoi_decimal: "n < 2 ^ 31 \<Longrightarrow> atoi (decimal n) = int n"
proof -
  assume "n < 2 ^ 31"
  then have "int n < 2 ^ 31" by simp
  then have "atoi_in_range (decimal n)"
    by (simp add: atoi_in_range_def strtol_value_decimal)
  then show ?thesis by (simp add: atoi_value strtol_value_decimal)
qed

lemma check_host_port_valid:
  assumes "valid_host h" and "1 \<le> v" and "v \<le> 65535"
  shows "check_host_port h v sel = Some (h, v, sel)"
proof -
  have a: "h \<noteq> []" "length h \<le> 255"
    "CHR '' '' \<notin> set h" "TAB \<notin> set h" "LF \<notin> set h"
    "CHR ''.'' \<in> set h \<or> isdigit (char_at0 h)"
    using assms(1) by (auto simp: valid_host_def)
  have ws: "\<not> (strchr h (CHR '' '') \<noteq> None \<or> strchr h TAB \<noteq> None \<or> strchr h LF \<noteq> None)"
    using a(3,4,5) by (simp add: strchr_None_iff)
  have dot: "\<not> (strchr h (CHR ''.'') = None \<and> \<not> isdigit (char_at0 h))"
    using a(6) by (simp add: strchr_None_iff)
  have prt: "\<not> (v \<le> 0 \<or> v > 65535)" using assms(2,3) by simp
  show ?thesis
    unfolding check_host_port_def if_not_P [OF a(1)] if_not_P [OF ws] if_not_P [OF dot]
      if_not_P [OF prt]
    using a(2) by (simp add: strncpy_def MAX_HOST_LENGTH_def)
qed

text \<open>
  Claim C6, as amended. For every valid host \<open>h\<close>, port \<open>p\<close> from 1 to 65535 written in
  decimal and selector \<open>s\<close> of at most 1023 bytes, such that the address
  \<open>gopher://h:p/s\<close> is at most 1289 bytes long: parsing \<open>gopher://h:p/s\<close> gives
  \<open>(h, p, s)\<close>, parsing \<open>gopher://h/s\<close> gives port 70, and parsing \<open>gopher://h:p\<close> gives
  the empty selector.
\<close>

theorem parse_gopher_address_round_trip:
  assumes "valid_host h" and "1 \<le> p" and "p \<le> 65535" and "length s \<le> 1023"
    and "length (''gopher://'' @ h @ '':'' @ decimal p @ ''/'' @ s) \<le> 1289"
  shows "parse_gopher_address (''gopher://'' @ h @ '':'' @ decimal p @ ''/'' @ s)
           = Some (h, int p, s) \<and>
         parse_gopher_address (''gopher://'' @ h @ ''/'' @ s) = Some (h, 70, s) \<and>
         parse_gopher_address (''gopher://'' @ h @ '':'' @ decimal p) = Some (h, int p, [])"
proof -
  have hs: "CHR ''/'' \<notin> set h" and hc: "CHR '':'' \<notin> set h"
    using assms(1) by (auto simp: valid_host_def)
  have ds: "CHR ''/'' \<notin> set (decimal p)" and dc: "CHR '':'' \<notin> set (decimal p)"
    using decimal_digits [of p] isdigit_not_special by blast+
  have dne: "decimal p \<noteq> []" using decimal_digits by blast
  have v: "1 \<le> int p" "int p \<le> 65535" using assms(2,3) by simp_all
  have ad: "atoi (decimal p) = int p" using assms(3) by (simp add: atoi_decimal)
  have strip: "strip_scheme (CHR ''g'' # CHR ''o'' # CHR ''p'' # CHR ''h'' # CHR ''e'' # CHR ''r'' #
                   CHR '':'' # CHR ''/'' # CHR ''/'' # x) = x" for x
    by (simp add: strip_scheme_def)
  have l1: "length (''gopher://'' @ h @ '':'' @ decimal p @ ''/'' @ s) \<le> 1289"
    and l2: "length (''gopher://'' @ h @ ''/'' @ s) \<le> 1289"
    and l3: "length (''gopher://'' @ h @ '':'' @ decimal p) \<le> 1289"
    using assms(5) by simp_all
  have full: "parse_gopher_address (''gopher://'' @ h @ '':'' @ decimal p @ ''/'' @ s)
        = (if Some (decimal p) = Some [] then None
           else check_host_port h (case Some (decimal p) of None \<Rightarrow> 70 | Some pt \<Rightarrow> atoi pt)
                  (case Some s of None \<Rightarrow> [] | Some sl \<Rightarrow> take 1023 sl))"
    by (rule parse_gopher_address_parts) (use l1 hs hc ds dc in \<open>simp_all add: strip\<close>)
  have noport: "parse_gopher_address (''gopher://'' @ h @ ''/'' @ s)
        = (if (None :: string option) = Some [] then None
           else check_host_port h (case (None :: string option) of None \<Rightarrow> 70 | Some pt \<Rightarrow> atoi pt)
                  (case Some s of None \<Rightarrow> [] | Some sl \<Rightarrow> take 1023 sl))"
    by (rule parse_gopher_address_parts) (use l2 hs hc in \<open>simp_all add: strip\<close>)
  have nosel: "parse_gopher_address (''gopher://'' @ h @ '':'' @ decimal p)
        = (if Some (decimal p) = Some [] then None
           else check_host_port h (case Some (decimal p) of None \<Rightarrow> 70 | Some pt \<Rightarrow> atoi pt)
                  (case (None :: string option) of None \<Rightarrow> [] | Some sl \<Rightarrow> take 1023 sl))"
    by (rule parse_gopher_address_parts) (use l3 hs hc ds dc in \<open>simp_all add: strip\<close>)
  show ?thesis
    unfolding full noport nosel
    using dne assms(4) check_host_port_valid [OF assms(1) v]
      check_host_port_valid [OF assms(1), of 70]
    by (simp add: ad)
qed


theorem parse_gopher_address_round_trip_witness:
  "parse_gopher_address ''gopher://example.org:7070/1/docs'' = Some (''example.org'', 7070, ''1/docs'') \<and>
   parse_gopher_address ''gopher://example.org/1/docs'' = Some (''example.org'', 70, ''1/docs'') \<and>
   parse_gopher_address ''gopher://example.org:7070'' = Some (''example.org'', 7070, [])"
proof -
  have d: "decimal 7070 = ''7070''"
    by (simp add: decimal.simps digit_char_def)
  have v: "valid_host ''example.org''"
    by (simp add: valid_host_def)
  show ?thesis
    using parse_gopher_address_round_trip [of "''example.org''" 7070 "''1/docs''"] v
    by (simp add: d)
qed

text \<open>
  Claim C6 as stated fails when the address does not fit the buffer \<open>temp_address\<close>: with
  a valid host of 255 bytes, port 65535 and a selector of 1023 bytes the address has 1294
  bytes, the parser reads 1289 of them, and the selector comes back cut to 1018 bytes.
\<close>

theorem parse_gopher_address_long_counterexample:
  "parse_gopher_address
     (''gopher://'' @ (replicate 253 (CHR ''a'') @ ''.b'') @ '':65535/'' @ replicate 1023 (CHR ''x''))
   = Some (replicate 253 (CHR ''a'') @ ''.b'', 65535, replicate 1018 (CHR ''x'')) \<and>
   replicate 1018 (CHR ''x'') \<noteq> replicate 1023 (CHR ''x'') \<and>
   valid_host (replicate 253 (CHR ''a'') @ ''.b'')"
proof -
  let ?h = "replicate 253 (CHR ''a'') @ ''.b''"
  let ?a = "''gopher://'' @ ?h @ '':65535/'' @ replicate 1023 (CHR ''x'')"
  have v: "valid_host ?h" by (simp add: valid_host_def)
  have tk: "take 1289 ?a = ''gopher://'' @ ?h @ '':65535/'' @ replicate 1018 (CHR ''x'')"
    by simp
  have st: "strip_scheme (take 1289 ?a)
            = ?h @ (case Some ''65535'' of None \<Rightarrow> [] | Some pt \<Rightarrow> CHR '':'' # pt) @
              (case Some (replicate 1018 (CHR ''x'')) of None \<Rightarrow> [] | Some sl \<Rightarrow> CHR ''/'' # sl)"
    unfolding tk by (simp add: strip_scheme_def)
  have at: "atoi ''65535'' = 65535"
    by (simp add: atoi_eval)
  have "parse_gopher_address ?a
        = (if Some ''65535'' = Some [] then None
           else check_host_port ?h (case Some ''65535'' of None \<Rightarrow> 70 | Some pt \<Rightarrow> atoi pt)
                  (case Some (replicate 1018 (CHR ''x'')) of None \<Rightarrow> [] | Some sl \<Rightarrow> take 1023 sl))"
    by (rule parse_gopher_address_parts [OF _ st]) simp_all
  then have "parse_gopher_address ?a = Some (?h, 65535, replicate 1018 (CHR ''x''))"
    using check_host_port_valid [OF v, of 65535 "replicate 1018 (CHR ''x'')"] at by simp
  then show ?thesis using v by simp
qed

text \<open>
  Claim C7, as amended. The parser reads the first 1289 bytes of the input, without the
  scheme prefix; the host and port part ends before the first slash, and the port part
  starts after its last colon. The parser fails when the input is empty, when the host part
  is empty, when the host part holds a space, a tab or a newline, when the host part has no
  dot and does not start with a digit, when nothing follows the last colon, and when the
  port part denotes a number that an \<open>int\<close> holds (\<open>atoi_in_range\<close>) and that is below 1 or
  above 65535; a port part that does not start with a number denotes 0. A number that an
  \<open>int\<close> does not hold is left out of the claim: \<open>atoi\<close> wraps it (\<open>atoi_wraps\<close>).
\<close>

theorem parse_gopher_address_rejects:
  assumes "strip_scheme (take 1289 address)
             = host @ (case port of None \<Rightarrow> [] | Some pt \<Rightarrow> CHR '':'' # pt) @
               (case selector of None \<Rightarrow> [] | Some sl \<Rightarrow> CHR ''/'' # sl)"
    and "CHR ''/'' \<notin> set host"
    and "\<forall>pt. port = Some pt \<longrightarrow> CHR ''/'' \<notin> set pt \<and> CHR '':'' \<notin> set pt"
    and "port = None \<longrightarrow> CHR '':'' \<notin> set host"
    and "address = [] \<or> host = [] \<or>
         CHR '' '' \<in> set host \<or> TAB \<in> set host \<or> LF \<in> set host \<or>
         (CHR ''.'' \<notin> set host \<and> \<not> isdigit (char_at0 host)) \<or>
         port = Some [] \<or>
         (\<exists>pt. port = Some pt \<and> atoi_in_range pt \<and> (atoi pt < 1 \<or> atoi pt > 65535))"
  shows "parse_gopher_address address = None"
proof (cases "address = []")
  case True
  then show ?thesis by (simp add: parse_gopher_address_def)
next
  case False
  have eq: "parse_gopher_address address
        = (if port = Some [] then None
           else check_host_port host (case port of None \<Rightarrow> 70 | Some pt \<Rightarrow> atoi pt)
                  (case selector of None \<Rightarrow> [] | Some sl \<Rightarrow> take 1023 sl))"
    using parse_gopher_address_parts [OF False assms(1,2)] assms(3,4) by blast
  have bad: "host = [] \<or> CHR '' '' \<in> set host \<or> TAB \<in> set host \<or> LF \<in> set host \<or>
         (CHR ''.'' \<notin> set host \<and> \<not> isdigit (char_at0 host)) \<or> port = Some [] \<or>
         (\<exists>pt. port = Some pt \<and> (atoi pt < 1 \<or> atoi pt > 65535))"
    using assms(5) False by blast
  show ?thesis
  proof (cases "port = Some []")
    case True
    then show ?thesis using eq by simp
  next
    case np: False
    have "check_host_port host (case port of None \<Rightarrow> 70 | Some pt \<Rightarrow> atoi pt) sel = None" for sel
      using bad np by (auto simp: check_host_port_def strchr_None_iff)
    then show ?thesis using eq np by simp
  qed
qed

theorem parse_gopher_address_rejects_witness:
  "parse_gopher_address [] = None \<and>
   parse_gopher_address ''gopher://'' = None \<and>
   parse_gopher_address ''bad host.org'' = None \<and>
   parse_gopher_address ''localhost'' = None \<and>
   parse_gopher_address ''example.org:'' = None \<and>
   parse_gopher_address ''example.org:0'' = None \<and>
   parse_gopher_address ''example.org:65536/1/docs'' = None \<and>
   parse_gopher_address ''example.org:seventy'' = None"
proof -
  have a0: "atoi ''0'' = 0" "atoi ''65536'' = 65536" "atoi ''seventy'' = 0"
    by (simp_all add: atoi_eval)
  have r: "atoi_in_range ''0''" "atoi_in_range ''65536''" "atoi_in_range ''seventy''"
    by (simp_all add: atoi_in_range_def strtol_value_def isspace_def isdigit_def)
  have "parse_gopher_address [] = None"
    using parse_gopher_address_rejects [of "[]" "[]" None None] by (simp add: strip_scheme_def)
  moreover have "parse_gopher_address ''gopher://'' = None"
    using parse_gopher_address_rejects [of "''gopher://''" "[]" None None]
    by (simp add: strip_scheme_def)
  moreover have "parse_gopher_address ''bad host.org'' = None"
    using parse_gopher_address_rejects [of "''bad host.org''" "''bad host.org''" None None]
    by (simp add: strip_scheme_def)
  moreover have "parse_gopher_address ''localhost'' = None"
    using parse_gopher_address_rejects [of "''localhost''" "''localhost''" None None]
    by (simp add: strip_scheme_def isdigit_def char_at0_def)
  moreover have "parse_gopher_address ''example.org:'' = None"
    using parse_gopher_address_rejects [of "''example.org:''" "''example.org''" "Some []" None]
    by (simp add: strip_scheme_def)
  moreover have "parse_gopher_address ''example.org:0'' = None"
    using parse_gopher_address_rejects [of "''example.org:0''" "''example.org''" "Some ''0''" None]
      a0 r
    by (simp add: strip_scheme_def)
  moreover have "parse_gopher_address ''example.org:65536/1/docs'' = None"
    using parse_gopher_address_rejects [of "''example.org:65536/1/docs''" "''example.org''"
        "Some ''65536''" "Some ''1/docs''"] a0 r
    by (simp add: strip_scheme_def)
  moreover have "parse_gopher_address ''example.org:seventy'' = None"
    using parse_gopher_address_rejects [of "''example.org:seventy''" "''example.org''"
        "Some ''seventy''" None] a0 r
    by (simp add: strip_scheme_def)
  ultimately show ?thesis by simp
qed

text \<open>
  Claim C7 as stated fails in two places: a port part that is not a number but starts
  with one is accepted (\<open>atoi\<close> reads the leading digits), and a host part with a carriage
  return, which is white space, is accepted (only space, tab and newline are looked for).
\<close>

theorem parse_gopher_address_lenient_counterexample:
  "parse_gopher_address ''example.org:70abc'' = Some (''example.org'', 70, []) \<and>
   parse_gopher_address (''exam'' @ [CR] @ ''ple.org'')
     = Some (''exam'' @ [CR] @ ''ple.org'', 70, []) \<and>
   isspace CR"
proof -
  have at: "atoi ''70abc'' = 70"
    by (simp add: atoi_eval)
  have v1: "check_host_port ''example.org'' 70 [] = Some (''example.org'', 70, [])"
    by (simp add: check_host_port_def strncpy_def MAX_HOST_LENGTH_def)
  have v2: "check_host_port (''exam'' @ [CR] @ ''ple.org'') 70 []
            = Some (''exam'' @ [CR] @ ''ple.org'', 70, [])"
    by (simp add: check_host_port_def strncpy_def MAX_HOST_LENGTH_def)
  have "parse_gopher_address ''example.org:70abc''
        = (if Some ''70abc'' = Some [] then None
           else check_host_port ''example.org''
                  (case Some ''70abc'' of None \<Rightarrow> 70 | Some pt \<Rightarrow> atoi pt)
                  (case (None :: string option) of None \<Rightarrow> [] | Some sl \<Rightarrow> take 1023 sl))"
    by (rule parse_gopher_address_parts) (simp_all add: strip_scheme_def)
  then have p1: "parse_gopher_address ''example.org:70abc'' = Some (''example.org'', 70, [])"
    using at v1 by simp
  have "parse_gopher_address (''exam'' @ [CR] @ ''ple.org'')
        = (if (None :: string option) = Some [] then None
           else check_host_port (''exam'' @ [CR] @ ''ple.org'')
                  (case (None :: string option) of None \<Rightarrow> 70 | Some pt \<Rightarrow> atoi pt)
                  (case (None :: string option) of None \<Rightarrow> [] | Some sl \<Rightarrow> take 1023 sl))"
    by (rule parse_gopher_address_parts) (simp_all add: strip_scheme_def)
  then have p2: "parse_gopher_address (''exam'' @ [CR] @ ''ple.org'')
                 = Some (''exam'' @ [CR] @ ''ple.org'', 70, [])"
    using v2 by simp
  have "isspace CR" by (simp add: isspace_def)
  then show ?thesis using p1 p2 by simp
qed

section \<open>Menu navigation: the claims\<close>

lemma collect_items_ordinals:
  "selectable = int (length (filter is_selectable items)) \<Longrightarrow>
   map menu_index (filter is_selectable items) = [1..selectable] \<Longrightarrow>
   collect_items host port lines items selectable = (items', selectable') \<Longrightarrow>
   selectable' = int (length (filter is_selectable items')) \<and>
   map menu_index (filter is_selectable items') = [1..selectable']"
proof (induction lines arbitrary: items selectable)
  case Nil
  then show ?case by auto
next
  case (Cons line lines)
  show ?case
  proof (cases "parse_gopher_line line host port")
    case None
    with Cons show ?thesis by simp
  next
    case (Some it)
    show ?thesis
    proof (cases "is_selectable it")
      case True
      have up: "[1..selectable + 1] = [1..selectable] @ [selectable + 1]"
        using Cons.prems(1) by (simp add: upto_rec2)
      have "collect_items host port lines (items @ [it\<lparr>menu_index := selectable + 1\<rparr>])
              (selectable + 1) = (items', selectable')"
        using Cons.prems(3) Some True by simp
      moreover have "selectable + 1 =
          int (length (filter is_selectable (items @ [it\<lparr>menu_index := selectable + 1\<rparr>])))"
        using Cons.prems(1) True by simp
      moreover have "map menu_index
          (filter is_selectable (items @ [it\<lparr>menu_index := selectable + 1\<rparr>]))
          = [1..selectable + 1]"
        using Cons.prems(2) True up by simp
      ultimately show ?thesis using Cons.IH by blast
    next
      case False
      have "collect_items host port lines (items @ [it]) selectable = (items', selectable')"
        using Cons.prems(3) Some False by simp
      moreover have "selectable = int (length (filter is_selectable (items @ [it])))"
        using Cons.prems(1) False by simp
      moreover have "map menu_index (filter is_selectable (items @ [it])) = [1..selectable]"
        using Cons.prems(2) False by simp
      ultimately show ?thesis using Cons.IH by blast
    qed
  qed
qed

lemma process_gopher_response_wf:
  assumes "process_gopher_response s0 data = Some s"
  shows "menu_wf s \<and> selected_index s = 1"
proof (cases "strtok_lines [] data = []")
  case True
  then have "s = s0\<lparr>gopher_items := [], selectable_items := 0, selected_index := 1\<rparr>"
    using assms by (simp add: process_gopher_response_def)
  then show ?thesis by (simp add: menu_wf_def)
next
  case False
  then obtain c nav items selectable where
    "current_nav s0 = Some c" "fmlookup (heap s0) c = Some nav"
    and col: "collect_items (nav_host nav) (nav_port nav) (strtok_lines [] data) [] 0
              = (items, selectable)"
    and s: "s = s0\<lparr>gopher_items := items, selectable_items := selectable, selected_index := 1\<rparr>"
    using assms
    by (auto simp: process_gopher_response_def Let_def split: option.splits prod.splits)
  have "selectable = int (length (filter is_selectable items)) \<and>
        map menu_index (filter is_selectable items) = [1..selectable]"
    using collect_items_ordinals [OF _ _ col] by simp
  then show ?thesis using s by (simp add: menu_wf_def)
qed




text \<open>
  Claim C10. In a displayed menu whose item list has no selectable item, every key handed
  to \<open>handle_menu_navigation\<close> leaves the state as it is: the selected ordinal and the
  menu scroll offset do not change.
\<close>

theorem handle_menu_navigation_no_selectable:
  assumes "menu_wf s"
    and "\<forall>item \<in> set (gopher_items s). \<not> is_selectable item"
  shows "handle_menu_navigation s input = s \<and>
         selected_index (handle_menu_navigation s input) = selected_index s \<and>
         scroll_offset (handle_menu_navigation s input) = scroll_offset s"
proof -
  have "filter is_selectable (gopher_items s) = []"
    using assms(2) by (simp add: filter_empty_conv)
  then have "selectable_items s = 0"
    using assms(1) by (simp add: menu_wf_def)
  then show ?thesis by (simp add: handle_menu_navigation_def)
qed

theorem handle_menu_navigation_no_selectable_witness:
  "handle_menu_navigation example_info_menu KEY_DOWN = example_info_menu \<and>
   handle_menu_navigation example_info_menu KEY_PGUP = example_info_menu"
  using handle_menu_navigation_no_selectable [of example_info_menu KEY_DOWN]
    handle_menu_navigation_no_selectable [of example_info_menu KEY_PGUP]
  by (simp add: example_info_menu_def menu_wf_def)

section \<open>Navigation history: the claims\<close>

lemma dlseg_cong:
  "(\<And>x. x \<in> set xs \<Longrightarrow> fmlookup h x = fmlookup h' x) \<Longrightarrow> dlseg h pv xs nx = dlseg h' pv xs nx"
  by (induction xs arbitrary: pv) (auto split: option.splits)

lemma dlseg_append:
  "dlseg h pv (xs @ ys) nx =
     (dlseg h pv xs (case ys of [] \<Rightarrow> nx | b # _ \<Rightarrow> Some b) \<and>
      dlseg h (if xs = [] then pv else Some (last xs)) ys nx)"
proof (induction xs arbitrary: pv)
  case Nil
  then show ?case by simp
next
  case (Cons a as)
  show ?case
  proof (cases as)
    case Nil
    then show ?thesis by (cases ys) (auto split: option.splits)
  next
    case (Cons b bs)
    then show ?thesis using Cons.IH [of "Some a"] by (auto split: option.splits)
  qed
qed

lemma free_nodes_chain:
  "dlseg h pv xs None \<Longrightarrow> distinct xs \<Longrightarrow>
   free_nodes h (case xs of [] \<Rightarrow> None | b # _ \<Rightarrow> Some b) = fmdrop_set (set xs) h"
proof (induction xs arbitrary: h pv)
  case Nil
  then show ?case by simp
next
  case (Cons a as)
  from Cons.prems(1) obtain n where n: "fmlookup h a = Some n"
    and nx: "nav_next n = (case as of [] \<Rightarrow> None | b # _ \<Rightarrow> Some b)"
    and rest: "dlseg h (Some a) as None"
    by (auto split: option.splits)
  have same: "\<And>x. x \<in> set as \<Longrightarrow> fmlookup (fmdrop a h) x = fmlookup h x"
    using Cons.prems(2) by auto
  have "dlseg (fmdrop a h) (Some a) as None"
    using rest dlseg_cong [OF same, of as "Some a" None] by simp
  then have "free_nodes (fmdrop a h) (case as of [] \<Rightarrow> None | b # _ \<Rightarrow> Some b)
             = fmdrop_set (set as) (fmdrop a h)"
    using Cons.IH Cons.prems(2) by simp
  also have "\<dots> = fmdrop_set (set (a # as)) h"
    by (rule fmap_ext) auto
  finally show ?case using n nx by simp
qed

lemma dlseg_lookup:
  "dlseg h pv xs nx \<Longrightarrow> a \<in> set xs \<Longrightarrow> \<exists>n. fmlookup h a = Some n"
  by (induction xs arbitrary: pv) (auto split: option.splits)

lemma navigate_to_first:
  assumes "current_nav s = None" and "heap s = fmempty"
  shows "hist_inv (navigate_to p s host port selector)"
proof -
  have "dlseg (fmupd p (create_nav_state host port selector) fmempty) None [p] None"
    by (simp add: create_nav_state_def)
  then show ?thesis
    using assms by (auto simp: hist_inv_def navigate_to_def intro!: exI [of _ "[p]"])
qed

lemma navigate_to_heap:
  assumes cur: "current_nav s = Some c"
    and split: "dlseg (heap s) None (pre @ c # post) None"
    and dist: "distinct (pre @ c # post)"
    and dom: "fmdom' (heap s) = set (pre @ c # post)"
    and fresh: "fmlookup (heap s) p = None"
    and nc: "fmlookup (heap s) c = Some n"
  shows "heap (navigate_to p s host port selector)
         = fmupd p ((create_nav_state host port selector)\<lparr>nav_prev := Some c\<rparr>)
             (fmupd c (n\<lparr>nav_next := Some p\<rparr>) (fmdrop_set (set post) (heap s)))"
proof -
  let ?new = "create_nav_state host port selector"
  let ?h0 = "fmupd p ?new (heap s)"
  have p_notin: "p \<notin> set (pre @ c # post)"
    using fresh dom by (metis fmdom'_notI)
  then have pc: "p \<noteq> c" by auto
  have c_post: "c \<notin> set post" using dist by auto
  have seg: "dlseg (heap s) (Some c) post None"
    and nxt: "nav_next n = (case post of [] \<Rightarrow> None | b # _ \<Rightarrow> Some b)"
    using split nc by (auto simp: dlseg_append split: option.splits)
  have same: "\<And>x. x \<in> set post \<Longrightarrow> fmlookup ?h0 x = fmlookup (heap s) x"
    using p_notin by auto
  have seg0: "dlseg ?h0 (Some c) post None"
    using seg dlseg_cong [OF same, of post "Some c" None] by simp
  have dpost: "distinct post" using dist by auto
  have fr: "free_nodes ?h0 (nav_next n) = fmdrop_set (set post) ?h0"
    using free_nodes_chain [OF seg0 dpost] nxt by simp
  have l0: "fmlookup ?h0 c = Some n" using nc pc by simp
  have lc: "fmlookup (fmdrop_set (set post) ?h0) c = Some n"
    using l0 c_post by simp
  have ffh: "free_forward_history ?h0 (Some c)
             = fmupd c (n\<lparr>nav_next := None\<rparr>) (fmdrop_set (set post) ?h0)"
    using l0 lc fr by (simp add: free_forward_history_def Let_def)
  have pp: "p \<notin> set post" using p_notin by auto
  show ?thesis
    unfolding navigate_to_def Let_def using cur ffh pc pp
    by (auto intro!: fmap_ext simp: fmupd_lookup)
qed


lemma navigate_to_inv:
  assumes inv: "hist_inv s" and fresh: "fmlookup (heap s) p = None"
  shows "hist_inv (navigate_to p s host port selector)"
proof (cases "current_nav s")
  case None
  then show ?thesis using inv navigate_to_first by (simp add: hist_inv_def)
next
  case (Some c)
  then obtain xs where seg: "dlseg (heap s) None xs None" and dist: "distinct xs"
    and cin: "c \<in> set xs" and dom: "fmdom' (heap s) = set xs"
    using inv by (auto simp: hist_inv_def)
  from cin obtain pre post where xs: "xs = pre @ c # post"
    by (auto dest: split_list)
  obtain n where nc: "fmlookup (heap s) c = Some n"
    using dlseg_lookup [OF seg cin] by blast
  let ?new = "(create_nav_state host port selector)\<lparr>nav_prev := Some c\<rparr>"
  let ?h1 = "fmupd p ?new (fmupd c (n\<lparr>nav_next := Some p\<rparr>) (fmdrop_set (set post) (heap s)))"
  have h1: "heap (navigate_to p s host port selector) = ?h1"
    using navigate_to_heap [OF Some _ _ _ fresh nc, of pre post] seg dist dom xs by simp
  have cur: "current_nav (navigate_to p s host port selector) = Some p"
    by (simp add: navigate_to_def Let_def)
  have "p \<notin> fmdom' (heap s)" using fresh by (rule fmdom'_notI)
  then have p_notin: "p \<notin> set xs" using dom by simp
  have pre_seg: "dlseg (heap s) None pre (Some c)"
    and prv: "nav_prev n = (if pre = [] then None else Some (last pre))"
    using seg nc unfolding xs by (auto simp: dlseg_append split: option.splits)
  have same: "fmlookup ?h1 x = fmlookup (heap s) x" if "x \<in> set pre" for x
  proof -
    have "x \<noteq> p" "x \<noteq> c" "x \<notin> set post"
      using that p_notin dist unfolding xs by auto
    then show ?thesis by simp
  qed
  have a: "dlseg ?h1 None pre (Some c)"
    using pre_seg dlseg_cong [OF same, of pre None "Some c"] by simp
  have pc: "p \<noteq> c" using p_notin xs by auto
  have b: "dlseg ?h1 (if pre = [] then None else Some (last pre)) [c, p] None"
    using prv pc by (simp add: create_nav_state_def)
  have chain: "dlseg ?h1 None (pre @ [c, p]) None"
    using a b by (simp add: dlseg_append)
  have d: "distinct (pre @ [c, p])"
    using dist p_notin unfolding xs by auto
  have "insert p (insert c (set (pre @ c # post) - set post)) = set (pre @ [c, p])"
    using dist unfolding xs by auto
  then have dm: "fmdom' ?h1 = set (pre @ [c, p])"
    using dom unfolding xs by simp
  have "\<exists>ys. dlseg ?h1 None ys None \<and> distinct ys \<and> p \<in> set ys \<and> fmdom' ?h1 = set ys"
    using chain d dm by (intro exI [of _ "pre @ [c, p]"]) simp
  then show ?thesis
    unfolding hist_inv_def cur h1 by simp
qed

lemma dlseg_prev_in:
  "dlseg h pv xs nx \<Longrightarrow> a \<in> set xs \<Longrightarrow> fmlookup h a = Some n \<Longrightarrow> nav_prev n = Some q
   \<Longrightarrow> q \<in> set xs \<or> pv = Some q"
proof (induction xs arbitrary: pv)
  case Nil
  then show ?case by simp
next
  case (Cons x xs)
  show ?case
  proof (cases "a = x")
    case True
    then show ?thesis using Cons.prems by (auto split: option.splits)
  next
    case False
    then have "a \<in> set xs" using Cons.prems(2) by simp
    moreover have "dlseg h (Some x) xs nx" using Cons.prems(1) by (auto split: option.splits)
    ultimately have "q \<in> set xs \<or> Some x = Some q"
      using Cons.IH Cons.prems(3,4) by blast
    then show ?thesis by auto
  qed
qed

lemma dlseg_next_in:
  "dlseg h pv xs nx \<Longrightarrow> a \<in> set xs \<Longrightarrow> fmlookup h a = Some n \<Longrightarrow> nav_next n = Some q
   \<Longrightarrow> q \<in> set xs \<or> nx = Some q"
proof (induction xs arbitrary: pv)
  case Nil
  then show ?case by simp
next
  case (Cons x xs)
  show ?case
  proof (cases "a = x")
    case True
    then show ?thesis using Cons.prems by (cases xs) (auto split: option.splits)
  next
    case False
    then have "a \<in> set xs" using Cons.prems(2) by simp
    moreover have "dlseg h (Some x) xs nx" using Cons.prems(1) by (auto split: option.splits)
    ultimately have "q \<in> set xs \<or> nx = Some q"
      using Cons.IH Cons.prems(3,4) by blast
    then show ?thesis by auto
  qed
qed

lemma navigate_back_heap: "heap (navigate_back s) = heap s"
  by (simp add: navigate_back_def split: option.splits)

lemma navigate_forward_heap: "heap (navigate_forward s) = heap s"
  by (simp add: navigate_forward_def split: option.splits)

lemma navigate_back_inv:
  assumes "hist_inv s"
  shows "hist_inv (navigate_back s)"
proof (cases "current_nav (navigate_back s) = current_nav s")
  case True
  then show ?thesis using assms by (simp add: hist_inv_def navigate_back_heap split: option.splits)
next
  case False
  then obtain c n q where c: "current_nav s = Some c" and n: "fmlookup (heap s) c = Some n"
    and q: "nav_prev n = Some q" and cur: "current_nav (navigate_back s) = Some q"
    by (auto simp: navigate_back_def split: option.splits)
  obtain xs where seg: "dlseg (heap s) None xs None" and dist: "distinct xs"
    and cin: "c \<in> set xs" and dom: "fmdom' (heap s) = set xs"
    using assms c by (auto simp: hist_inv_def)
  have "q \<in> set xs" using dlseg_prev_in [OF seg cin n q] by simp
  then show ?thesis
    unfolding hist_inv_def cur navigate_back_heap using seg dist dom by auto
qed

lemma navigate_forward_inv:
  assumes "hist_inv s"
  shows "hist_inv (navigate_forward s)"
proof (cases "current_nav (navigate_forward s) = current_nav s")
  case True
  then show ?thesis using assms by (simp add: hist_inv_def navigate_forward_heap split: option.splits)
next
  case False
  then obtain c n q where c: "current_nav s = Some c" and n: "fmlookup (heap s) c = Some n"
    and q: "nav_next n = Some q" and cur: "current_nav (navigate_forward s) = Some q"
    by (auto simp: navigate_forward_def split: option.splits)
  obtain xs where seg: "dlseg (heap s) None xs None" and dist: "distinct xs"
    and cin: "c \<in> set xs" and dom: "fmdom' (heap s) = set xs"
    using assms c by (auto simp: hist_inv_def)
  have "q \<in> set xs" using dlseg_next_in [OF seg cin n q] by simp
  then show ?thesis
    unfolding hist_inv_def cur navigate_forward_heap using seg dist dom by auto
qed

lemma run_inv: "run s ops s' \<Longrightarrow> hist_inv s \<Longrightarrow> hist_inv s'"
  by (induction rule: run.induct)
    (auto intro: navigate_to_inv navigate_back_inv navigate_forward_inv)

lemma navigate_back_current:
  "current_nav s \<noteq> None \<Longrightarrow> current_nav (navigate_back s) \<noteq> None"
  by (auto simp: navigate_back_def split: option.splits)

lemma navigate_forward_current:
  "current_nav s \<noteq> None \<Longrightarrow> current_nav (navigate_forward s) \<noteq> None"
  by (auto simp: navigate_forward_def split: option.splits)

lemma navigate_back_empty:
  "current_nav s = None \<Longrightarrow> navigate_back s = s"
  by (simp add: navigate_back_def)

lemma navigate_forward_empty:
  "current_nav s = None \<Longrightarrow> navigate_forward s = s"
  by (simp add: navigate_forward_def)

lemma run_current:
  "run s ops s' \<Longrightarrow> current_nav s \<noteq> None \<or> (\<exists>op \<in> set ops. is_navigate_to op)
   \<Longrightarrow> current_nav s' \<noteq> None"
proof (induction rule: run.induct)
  case (run_done s)
  then show ?case by simp
next
  case (run_navigate_to s new_state host port selector ops s')
  have "current_nav (navigate_to new_state s host port selector) \<noteq> None"
    by (simp add: navigate_to_def Let_def)
  then show ?case using run_navigate_to.IH by simp
next
  case (run_back s ops s')
  then show ?case using navigate_back_current navigate_back_empty
    by (cases "current_nav s = None") auto
next
  case (run_forward s ops s')
  then show ?case using navigate_forward_current navigate_forward_empty
    by (cases "current_nav s = None") auto
qed

lemma run_no_navigate:
  "run s ops s' \<Longrightarrow> current_nav s = None \<Longrightarrow> \<forall>op \<in> set ops. \<not> is_navigate_to op \<Longrightarrow> s' = s"
  by (induction rule: run.induct) (auto simp: navigate_back_empty navigate_forward_empty)

lemma dlseg_head_only:
  "dlseg h pv xs nx \<Longrightarrow> a \<in> set xs \<Longrightarrow> fmlookup h a = Some n \<Longrightarrow> nav_prev n = None
   \<Longrightarrow> pv = None \<and> a = hd xs"
proof (induction xs arbitrary: pv)
  case Nil
  then show ?case by simp
next
  case (Cons x xs)
  show ?case
  proof (cases "a = x")
    case True
    then show ?thesis using Cons.prems by (auto split: option.splits)
  next
    case False
    then have "a \<in> set xs" using Cons.prems(2) by simp
    moreover have "dlseg h (Some x) xs nx" using Cons.prems(1) by (auto split: option.splits)
    ultimately have "Some x = None \<and> a = hd xs"
      using Cons.IH Cons.prems(3,4) by blast
    then show ?thesis by simp
  qed
qed

lemma head_nodes_iff:
  "a |\<in>| head_nodes h \<longleftrightarrow> (\<exists>n. fmlookup h a = Some n \<and> nav_prev n = None)"
  by (cases "fmlookup h a") (simp_all add: head_nodes_def fmlookup_dom_iff)

lemma head_nodes_chain:
  assumes seg: "dlseg h None xs None" and ne: "xs \<noteq> []" and dom: "fmdom' h = set xs"
  shows "head_nodes h = {|hd xs|}"
proof (rule fset_eqI)
  fix a
  obtain x rest where xs: "xs = x # rest" using ne by (cases xs) simp_all
  obtain n where n: "fmlookup h x = Some n" "nav_prev n = None"
    using seg unfolding xs by (cases "fmlookup h x") simp_all
  have "a |\<in>| head_nodes h \<longleftrightarrow> a = x"
  proof
    assume "a |\<in>| head_nodes h"
    then obtain m where m: "fmlookup h a = Some m" "nav_prev m = None"
      unfolding head_nodes_iff by blast
    have "a \<in> fmdom' h" using m(1) by (rule fmdom'I)
    then have "a \<in> set xs" unfolding dom .
    then have "a = hd xs" using dlseg_head_only [OF seg _ m] by blast
    then show "a = x" unfolding xs by simp
  next
    assume "a = x"
    then show "a |\<in>| head_nodes h" unfolding head_nodes_iff using n by blast
  qed
  then show "a |\<in>| head_nodes h \<longleftrightarrow> a |\<in>| {|hd xs|}"
    unfolding xs by simp
qed

lemma dlseg_next_rank:
  "dlseg h pv xs None \<Longrightarrow> distinct xs \<Longrightarrow> a \<in> set xs \<Longrightarrow> fmlookup h a = Some n \<Longrightarrow>
   nav_next n = Some b \<Longrightarrow> rank xs a < rank xs b"
proof (induction xs arbitrary: pv)
  case Nil
  then show ?case by simp
next
  case (Cons x rest)
  have bin: "b \<in> set (x # rest)"
    using dlseg_next_in [OF Cons.prems(1,3,4,5)] by simp
  show ?case
  proof (cases "a = x")
    case True
    then have "b \<in> set rest"
      using Cons.prems(1,4,5) by (cases rest) (auto split: option.splits)
    then have "b \<noteq> x" using Cons.prems(2) by auto
    then show ?thesis using True by (simp add: rank_def)
  next
    case False
    then have ain: "a \<in> set rest" using Cons.prems(3) by simp
    have seg: "dlseg h (Some x) rest None" using Cons.prems(1) by (auto split: option.splits)
    have "b \<in> set rest" using dlseg_next_in [OF seg ain Cons.prems(4,5)] by simp
    then have "b \<noteq> x" using Cons.prems(2) by auto
    moreover have "rank rest a < rank rest b"
      using Cons.IH [OF seg _ ain Cons.prems(4,5)] Cons.prems(2) by simp
    ultimately show ?thesis using False by (simp add: rank_def)
  qed
qed

lemma dlseg_prev_rank:
  "dlseg h pv xs nx \<Longrightarrow> distinct xs \<Longrightarrow> (\<And>q. pv = Some q \<Longrightarrow> q \<notin> set xs) \<Longrightarrow>
   a \<in> set xs \<Longrightarrow> fmlookup h a = Some n \<Longrightarrow> nav_prev n = Some b \<Longrightarrow> b \<in> set xs \<Longrightarrow>
   rank xs b < rank xs a"
proof (induction xs arbitrary: pv)
  case Nil
  then show ?case by simp
next
  case (Cons x rest)
  show ?case
  proof (cases "a = x")
    case True
    then have "pv = Some b" using Cons.prems(1,5,6) by (auto split: option.splits)
    then show ?thesis using Cons.prems(3,7) by blast
  next
    case False
    then have ain: "a \<in> set rest" using Cons.prems(4) by simp
    have seg: "dlseg h (Some x) rest nx" using Cons.prems(1) by (auto split: option.splits)
    show ?thesis
    proof (cases "b = x")
      case True
      then show ?thesis using False by (simp add: rank_def)
    next
      case bx: False
      then have "b \<in> set rest" using Cons.prems(7) by simp
      moreover have "\<And>q. Some x = Some q \<Longrightarrow> q \<notin> set rest" using Cons.prems(2) by auto
      ultimately have "rank rest b < rank rest a"
        using Cons.IH [OF seg _ _ ain Cons.prems(5,6)] Cons.prems(2) by simp
      then show ?thesis using False bx by (simp add: rank_def)
    qed
  qed
qed

lemma chain_acyclic:
  assumes seg: "dlseg h None xs None" and dist: "distinct xs" and dom: "fmdom' h = set xs"
  shows "acyclic (next_rel h) \<and> acyclic (prev_rel h)"
proof
  have "acyclic ((next_rel h)\<inverse>)"
  proof (rule acyclicI_order [where f = "rank xs"])
    fix a b
    assume "(a, b) \<in> (next_rel h)\<inverse>"
    then obtain n where n: "fmlookup h b = Some n" "nav_next n = Some a"
      by (auto simp: next_rel_def)
    then have "b \<in> set xs" using dom by (metis fmdom'I)
    then show "rank xs b < rank xs a" using dlseg_next_rank [OF seg dist _ n] by simp
  qed
  then show "acyclic (next_rel h)" by simp
next
  show "acyclic (prev_rel h)"
  proof (rule acyclicI_order [where f = "rank xs"])
    fix a b
    assume "(a, b) \<in> prev_rel h"
    then obtain n where n: "fmlookup h a = Some n" "nav_prev n = Some b"
      by (auto simp: prev_rel_def)
    then have ain: "a \<in> set xs" using dom by (metis fmdom'I)
    have bin: "b \<in> set xs" using dlseg_prev_in [OF seg ain n] by simp
    show "rank xs b < rank xs a"
      using dlseg_prev_rank [OF seg dist _ ain n bin] by simp
  qed
qed

lemma initial_inv: "hist_inv (initial_state rows)"
  by (simp add: hist_inv_def initial_state_def)

text \<open>
  Claim C2, as amended. For every run of NavigateTo, Back and Forward operations from the
  empty history: once the run holds a NavigateTo, exactly one allocated node has no
  predecessor, the \<open>next\<close> links and the \<open>prev\<close> links are acyclic, and the store is one
  chain that holds the current node; a run with no NavigateTo leaves the empty history as
  it is, with no node at all. Back and Forward never change the store, so no node's \<open>prev\<close>
  or \<open>next\<close> link changes.
\<close>

theorem history_chain_invariant:
  assumes "run (initial_state rows) ops s"
  shows "(if \<exists>op \<in> set ops. is_navigate_to op
          then fcard (head_nodes (heap s)) = 1 \<and>
               acyclic (next_rel (heap s)) \<and> acyclic (prev_rel (heap s)) \<and>
               (\<exists>c xs. current_nav s = Some c \<and> c \<in> set xs \<and> distinct xs \<and>
                       dlseg (heap s) None xs None \<and> fmdom' (heap s) = set xs)
          else s = initial_state rows) \<and>
         heap (navigate_back s) = heap s \<and> heap (navigate_forward s) = heap s"
proof (cases "\<exists>op \<in> set ops. is_navigate_to op")
  case True
  have inv: "hist_inv s" using run_inv [OF assms initial_inv] .
  obtain c where c: "current_nav s = Some c"
    using run_current [OF assms] True by auto
  then obtain xs where seg: "dlseg (heap s) None xs None" and dist: "distinct xs"
    and cin: "c \<in> set xs" and dom: "fmdom' (heap s) = set xs"
    using inv by (auto simp: hist_inv_def)
  have ne: "xs \<noteq> []" using cin by auto
  have "fcard (head_nodes (heap s)) = 1"
    using head_nodes_chain [OF seg ne dom] by (simp add: fcard_finsert_if)
  moreover have "acyclic (next_rel (heap s)) \<and> acyclic (prev_rel (heap s))"
    using chain_acyclic [OF seg dist dom] .
  ultimately show ?thesis
    using True c seg dist cin dom navigate_back_heap navigate_forward_heap by auto
next
  case False
  then have "s = initial_state rows"
    using run_no_navigate [OF assms] by (simp add: initial_state_def)
  then show ?thesis
    using False navigate_back_heap navigate_forward_heap by auto
qed

theorem history_chain_invariant_witness:
  "fcard (head_nodes (heap (navigate_back (navigate_to 1
       (navigate_to 0 (initial_state 24) ''example.org'' 70 [])
       ''example.org'' 70 ''1/docs'')))) = 1 \<and>
   acyclic (next_rel (heap (navigate_back (navigate_to 1
       (navigate_to 0 (initial_state 24) ''example.org'' 70 [])
       ''example.org'' 70 ''1/docs''))))"
proof -
  let ?s1 = "navigate_to 0 (initial_state 24) ''example.org'' 70 []"
  let ?s2 = "navigate_to 1 ?s1 ''example.org'' 70 ''1/docs''"
  let ?s3 = "navigate_back ?s2"
  have f1: "fmlookup (heap (initial_state 24)) 0 = None"
    by (simp add: initial_state_def)
  have f2: "fmlookup (heap ?s1) 1 = None"
    by (simp add: navigate_to_def initial_state_def)
  have "run ?s3 [] ?s3" by (rule run_done)
  then have "run ?s2 [Back] ?s3" by (rule run_back)
  then have "run ?s1 [NavigateTo ''example.org'' 70 ''1/docs'', Back] ?s3"
    using f2 by (rule run_navigate_to [rotated])
  then have r: "run (initial_state 24)
      [NavigateTo ''example.org'' 70 [], NavigateTo ''example.org'' 70 ''1/docs'', Back] ?s3"
    using f1 by (rule run_navigate_to [rotated])
  show ?thesis using history_chain_invariant [OF r] by simp
qed

text \<open>
  Claim C2 as stated fails for a run with no NavigateTo: after Back and Forward on the
  empty history no node is allocated, so the number of nodes with no predecessor is 0.
\<close>

theorem history_empty_counterexample:
  "run (initial_state 24) [Back, Forward] (initial_state 24) \<and>
   fcard (head_nodes (heap (initial_state 24))) = 0"
proof -
  have b: "navigate_back (initial_state 24) = initial_state 24"
    by (simp add: navigate_back_def initial_state_def)
  have f: "navigate_forward (initial_state 24) = initial_state 24"
    by (simp add: navigate_forward_def initial_state_def)
  have "run (initial_state 24) [] (initial_state 24)" by (rule run_done)
  then have "run (navigate_forward (initial_state 24)) [] (initial_state 24)" using f by simp
  then have "run (initial_state 24) [Forward] (initial_state 24)" by (rule run_forward)
  then have "run (navigate_back (initial_state 24)) [Forward] (initial_state 24)" using b by simp
  then have "run (initial_state 24) [Back, Forward] (initial_state 24)" by (rule run_back)
  moreover have "head_nodes (heap (initial_state 24)) = {||}"
    by (simp add: head_nodes_def initial_state_def)
  ultimately show ?thesis by simp
qed


lemma linked_two:
  assumes a: "fmlookup h a = Some na" and c: "fmlookup h c = Some nc"
    and "nav_prev na = None" and "nav_next na = Some c"
    and "nav_prev nc = Some a" and "nav_next nc = None"
  shows "linked h c = {a, c}"
proof
  show "linked h c \<subseteq> {a, c}"
  proof
    fix x
    assume "x \<in> linked h c"
    then show "x \<in> {a, c}"
      using assms by (induction rule: linked.induct) auto
  qed
next
  have "c \<in> linked h c" by (rule linked_self)
  moreover from this have "a \<in> linked h c"
    using c assms(5) by (rule linked_prev)
  ultimately show "{a, c} \<subseteq> linked h c" by simp
qed

lemma create_nav_state_fits:
  "length host \<le> 255 \<Longrightarrow> length selector \<le> 1023 \<Longrightarrow>
   create_nav_state host port selector =
     \<lparr>nav_host = host, nav_port = port, nav_selector = selector,
      page_content = None, nav_prev = None, nav_next = None\<rparr>"
  by (simp add: create_nav_state_def strncpy_def MAX_HOST_LENGTH_def MAX_SELECTOR_LENGTH_def)

lemma fetched_heap:
  assumes "current_nav t = Some x" and "fmlookup (heap t) x = Some n" and "page_content n = None"
    and "t' = (case body of None \<Rightarrow> t | Some response \<Rightarrow> fetch_current_content t response)"
  shows "current_nav t' = Some x \<and> heap t' = fmupd x (n\<lparr>page_content := body\<rparr>) (heap t)"
proof (cases body)
  case None
  have "fmupd x n (heap t) = heap t"
    using assms(2) by (auto intro!: fmap_ext)
  moreover have "n\<lparr>page_content := None\<rparr> = n" using assms(3) by simp
  ultimately show ?thesis using None assms(1,4) by simp
next
  case (Some response)
  then show ?thesis using assms by (simp add: fetch_current_content_def)
qed

text \<open>
  Claim C1. From the empty history: NavigateTo(A), NavigateTo(B), Back, NavigateTo(C), for
  locations whose host has at most 255 bytes and whose selector at most 1023, where the
  allocator hands out the cells \<open>a\<close>, \<open>b\<close>, \<open>c\<close> (each one not allocated at the time), and
  where after NavigateTo(A) and after NavigateTo(B) the body of the new current node may
  have been fetched (\<open>bodyA\<close>, \<open>bodyB\<close>: the body cached, if any). Before NavigateTo(C) the
  node of B, with host, port and selector of B and its cached body, follows the node of A.
  After NavigateTo(C) the current node is \<open>c\<close>; the chain from the head is exactly the node
  at \<open>a\<close>, which holds host, port and selector of A and the body cached for A, followed by
  the node at \<open>c\<close>, which holds host, port and selector of C and no body; nothing else is
  allocated: the cell \<open>b\<close> of the node of B is released, its cached body with it, and it is
  not linked to the current node.
\<close>

theorem navigate_to_prunes_forward:
  assumes "a \<noteq> b" and "c \<noteq> a" and "c \<noteq> b"
    and "length hostA \<le> 255" and "length selA \<le> 1023"
    and "length hostB \<le> 255" and "length selB \<le> 1023"
    and "length hostC \<le> 255" and "length selC \<le> 1023"
    and "sA = navigate_to a (initial_state rows) hostA portA selA"
    and "sA' = (case bodyA of None \<Rightarrow> sA | Some response \<Rightarrow> fetch_current_content sA response)"
    and "sB = navigate_to b sA' hostB portB selB"
    and "sB' = (case bodyB of None \<Rightarrow> sB | Some response \<Rightarrow> fetch_current_content sB response)"
    and "s = navigate_to c (navigate_back sB') hostC portC selC"
  shows "current_nav sB' = Some b \<and>
         fmlookup (heap sB') a =
           Some \<lparr>nav_host = hostA, nav_port = portA, nav_selector = selA,
                 page_content = bodyA, nav_prev = None, nav_next = Some b\<rparr> \<and>
         fmlookup (heap sB') b =
           Some \<lparr>nav_host = hostB, nav_port = portB, nav_selector = selB,
                 page_content = bodyB, nav_prev = Some a, nav_next = None\<rparr> \<and>
         current_nav s = Some c \<and>
         fmlookup (heap s) a =
           Some \<lparr>nav_host = hostA, nav_port = portA, nav_selector = selA,
                 page_content = bodyA, nav_prev = None, nav_next = Some c\<rparr> \<and>
         fmlookup (heap s) c =
           Some \<lparr>nav_host = hostC, nav_port = portC, nav_selector = selC,
                 page_content = None, nav_prev = Some a, nav_next = None\<rparr> \<and>
         dlseg (heap s) None [a, c] None \<and>
         fmdom' (heap s) = {a, c} \<and>
         fmlookup (heap s) b = None \<and>
         b \<notin> linked (heap s) c"
proof -
  let ?A = "\<lparr>nav_host = hostA, nav_port = portA, nav_selector = selA,
             page_content = None, nav_prev = None, nav_next = None\<rparr>"
  let ?B = "\<lparr>nav_host = hostB, nav_port = portB, nav_selector = selB,
             page_content = None, nav_prev = None, nav_next = None\<rparr>"
  let ?C = "\<lparr>nav_host = hostC, nav_port = portC, nav_selector = selC,
             page_content = None, nav_prev = None, nav_next = None\<rparr>"
  let ?A' = "?A\<lparr>page_content := bodyA\<rparr>"
  let ?B' = "?B\<lparr>page_content := bodyB, nav_prev := Some a\<rparr>"
  have cA: "create_nav_state hostA portA selA = ?A"
    using assms(4,5) by (rule create_nav_state_fits)
  have cB: "create_nav_state hostB portB selB = ?B"
    using assms(6,7) by (rule create_nav_state_fits)
  have cC: "create_nav_state hostC portC selC = ?C"
    using assms(8,9) by (rule create_nav_state_fits)
  have s1: "current_nav sA = Some a" "heap sA = fmupd a ?A fmempty"
    unfolding assms(10) by (simp_all add: navigate_to_def initial_state_def cA)
  have "current_nav sA' = Some a \<and> heap sA' = fmupd a (?A\<lparr>page_content := bodyA\<rparr>) (heap sA)"
    by (rule fetched_heap [OF s1(1) _ _ assms(11)]) (simp_all add: s1(2))
  then have s1': "current_nav sA' = Some a" "heap sA' = fmupd a ?A' fmempty"
    by (simp_all add: s1(2))
  have s2: "current_nav sB = Some b"
    "heap sB = fmupd b (?B\<lparr>nav_prev := Some a\<rparr>) (fmupd a (?A'\<lparr>nav_next := Some b\<rparr>) fmempty)"
    unfolding assms(12) using assms(1) s1'
    by (auto simp: navigate_to_def [of b] cB free_forward_history_def Let_def intro!: fmap_ext)
  have "current_nav sB' = Some b \<and>
        heap sB' = fmupd b (?B\<lparr>nav_prev := Some a\<rparr>\<lparr>page_content := bodyB\<rparr>) (heap sB)"
    by (rule fetched_heap [OF s2(1) _ _ assms(13)]) (simp_all add: s2(2))
  then have s2': "current_nav sB' = Some b"
    "heap sB' = fmupd b ?B' (fmupd a (?A'\<lparr>nav_next := Some b\<rparr>) fmempty)"
    by (simp_all add: s2(2))
  let ?s3 = "navigate_back sB'"
  have s3: "current_nav ?s3 = Some a" "heap ?s3 = heap sB'"
    using s2' assms(1) by (simp_all add: navigate_back_def)
  have fr: "free_nodes (fmupd c ?C (heap sB')) (Some b)
            = fmupd c ?C (fmupd a (?A'\<lparr>nav_next := Some b\<rparr>) fmempty)"
    using assms(1,2,3) s2'(2)
    by (auto intro!: fmap_ext)
  have hs: "heap s = fmupd c (?C\<lparr>nav_prev := Some a\<rparr>) (fmupd a (?A'\<lparr>nav_next := Some c\<rparr>) fmempty)"
    unfolding assms(14) navigate_to_def [of c] Let_def cC
    using assms(1,2,3) s3 s2'(2) fr
    by (auto simp: free_forward_history_def Let_def intro!: fmap_ext)
  have cur: "current_nav s = Some c"
    unfolding assms(14) by (simp add: navigate_to_def Let_def)
  have ba: "fmlookup (heap sB') a =
           Some \<lparr>nav_host = hostA, nav_port = portA, nav_selector = selA,
                 page_content = bodyA, nav_prev = None, nav_next = Some b\<rparr>"
    using s2'(2) assms(1) by simp
  have bb: "fmlookup (heap sB') b =
           Some \<lparr>nav_host = hostB, nav_port = portB, nav_selector = selB,
                 page_content = bodyB, nav_prev = Some a, nav_next = None\<rparr>"
    using s2'(2) by simp
  have la: "fmlookup (heap s) a =
           Some \<lparr>nav_host = hostA, nav_port = portA, nav_selector = selA,
                 page_content = bodyA, nav_prev = None, nav_next = Some c\<rparr>"
    using hs assms(2) by simp
  have lc: "fmlookup (heap s) c =
           Some \<lparr>nav_host = hostC, nav_port = portC, nav_selector = selC,
                 page_content = None, nav_prev = Some a, nav_next = None\<rparr>"
    using hs by simp
  have lb: "fmlookup (heap s) b = None"
    using hs assms(1,3) by simp
  have seg: "dlseg (heap s) None [a, c] None"
    using la lc by simp
  have dm: "fmdom' (heap s) = {a, c}"
    using hs by auto
  have "linked (heap s) c = {a, c}"
    using linked_two [OF la lc] by simp
  then have unreachable: "b \<notin> linked (heap s) c"
    using assms(1,3) by auto
  show ?thesis using s2'(1) ba bb cur la lc seg dm lb unreachable by blast
qed

theorem navigate_to_prunes_forward_witness:
  "fmlookup
     (heap (fetch_current_content
        (navigate_to 1
           (fetch_current_content (navigate_to 0 (initial_state 24) ''example.org'' 70 [])
              ''welcome'')
           ''example.org'' 70 ''1/docs'')
        ''the docs'')) 1 =
     Some \<lparr>nav_host = ''example.org'', nav_port = 70, nav_selector = ''1/docs'',
           page_content = Some ''the docs'', nav_prev = Some 0, nav_next = None\<rparr> \<and>
   current_nav
     (navigate_to 2 (navigate_back (fetch_current_content
        (navigate_to 1
           (fetch_current_content (navigate_to 0 (initial_state 24) ''example.org'' 70 [])
              ''welcome'')
           ''example.org'' 70 ''1/docs'')
        ''the docs'')) ''other.org'' 7070 ''0/x.txt'') = Some 2 \<and>
   fmlookup
     (heap (navigate_to 2 (navigate_back (fetch_current_content
        (navigate_to 1
           (fetch_current_content (navigate_to 0 (initial_state 24) ''example.org'' 70 [])
              ''welcome'')
           ''example.org'' 70 ''1/docs'')
        ''the docs'')) ''other.org'' 7070 ''0/x.txt'')) 0 =
     Some \<lparr>nav_host = ''example.org'', nav_port = 70, nav_selector = [],
           page_content = Some ''welcome'', nav_prev = None, nav_next = Some 2\<rparr> \<and>
   fmlookup
     (heap (navigate_to 2 (navigate_back (fetch_current_content
        (navigate_to 1
           (fetch_current_content (navigate_to 0 (initial_state 24) ''example.org'' 70 [])
              ''welcome'')
           ''example.org'' 70 ''1/docs'')
        ''the docs'')) ''other.org'' 7070 ''0/x.txt'')) 2 =
     Some \<lparr>nav_host = ''other.org'', nav_port = 7070, nav_selector = ''0/x.txt'',
           page_content = None, nav_prev = Some 0, nav_next = None\<rparr> \<and>
   fmlookup
     (heap (navigate_to 2 (navigate_back (fetch_current_content
        (navigate_to 1
           (fetch_current_content (navigate_to 0 (initial_state 24) ''example.org'' 70 [])
              ''welcome'')
           ''example.org'' 70 ''1/docs'')
        ''the docs'')) ''other.org'' 7070 ''0/x.txt'')) 1 = None \<and>
   fmdom'
     (heap (navigate_to 2 (navigate_back (fetch_current_content
        (navigate_to 1
           (fetch_current_content (navigate_to 0 (initial_state 24) ''example.org'' 70 [])
              ''welcome'')
           ''example.org'' 70 ''1/docs'')
        ''the docs'')) ''other.org'' 7070 ''0/x.txt'')) = {0, 2}"
  using navigate_to_prunes_forward [where a = 0 and b = 1 and c = 2 and rows = 24
      and hostA = "''example.org''" and portA = 70 and selA = "[]" and bodyA = "Some ''welcome''"
      and hostB = "''example.org''" and portB = 70 and selB = "''1/docs''"
      and bodyB = "Some ''the docs''"
      and hostC = "''other.org''" and portC = 7070 and selC = "''0/x.txt''",
      OF _ _ _ _ _ _ _ _ _ refl refl refl refl refl]
  by simp

section \<open>Text viewer: the claim\<close>

lemma count_newlines_filter:
  "count_newlines content count = count + int (length (filter (\<lambda>c. c = LF) content))"
  by (induction content arbitrary: count) simp_all

lemma calculate_text_lines_count:
  "total_content_lines (calculate_text_lines s content)
   = int (length (filter (\<lambda>c. c = LF) content)) +
     (if content \<noteq> [] \<and> last content \<noteq> LF then 1 else 0)"
  by (simp add: calculate_text_lines_def count_newlines_filter)

lemma clamp_text_scroll_range:
  "0 \<le> text_scroll_line (clamp_text_scroll s rows) \<and>
   text_scroll_line (clamp_text_scroll s rows) \<le> max (total_content_lines s - rows) 0"
  by (simp add: clamp_text_scroll_def Let_def)

text \<open>
  Claim C8 on the code. The line count is as claimed (\<open>calculate_text_lines_count\<close>) and
  the block at the top of the loop clamps the scroll line into the claimed interval
  (\<open>clamp_text_scroll_range\<close>), but an arrow or page key is followed by a render before the
  next clamp: for the body of ten lines on a terminal of eight rows (four viewable rows),
  two PageDown keys give renders at the scroll lines 0, 4 and 8, and 8 is outside [0, 6].
\<close>

theorem text_viewer_renders_overscrolled:
  "total_content_lines (calculate_text_lines example_text_state ten_lines) = 10 \<and>
   text_viewable_rows example_text_state = 4 \<and>
   map_option (\<lambda>(s, renders, key). renders)
     (handle_text_viewer_interaction example_text_state [Escape KEY_PGDN, Escape KEY_PGDN])
   = Some [0, 4, 8]"
proof -
  have n: "total_content_lines (calculate_text_lines s ten_lines) = 10" for s
    by (simp add: calculate_text_lines_count ten_lines_def)
  have r: "text_viewable_rows example_text_state = 4"
    by (simp add: text_viewable_rows_def example_text_state_def)
  have "handle_text_viewer_interaction example_text_state [Escape KEY_PGDN, Escape KEY_PGDN]
        = Some (text_viewer_loop ten_lines example_text_state
                  [Escape KEY_PGDN, Escape KEY_PGDN] [0])"
    by (simp add: handle_text_viewer_interaction_def example_text_state_def)
  moreover have "fst (snd (text_viewer_loop ten_lines example_text_state
                  [Escape KEY_PGDN, Escape KEY_PGDN] [0])) = [0, 4, 8]"
    by (simp add: example_text_state_def Let_def text_viewable_rows_def clamp_text_scroll_def
        text_viewer_arrow_def calculate_text_lines_def ten_lines_def)
  ultimately show ?thesis using n r by (simp add: case_prod_beta)
qed

end
